theory Spec2Isabelle
  imports Complex_Main "HOL-Library.Word"
begin

unbundle bit_operations_syntax

section \<open>The resumable zip extractor of butler (vendored savior/zipextractor)\<close>

text \<open>
  This theory embeds \<^verbatim>\<open>vendor/github.com/itchio/savior/zipextractor/zipextractor.go\<close>:
  the \<^verbatim>\<open>ZipExtractor\<close> type, \<^verbatim>\<open>FlateThreshold\<close>, \<^verbatim>\<open>zipFileEntry\<close> and
  \<^verbatim>\<open>Resume\<close>. The packages \<^verbatim>\<open>Resume\<close> calls into (savior's Source, Sink, Copier and
  SaveConsumer, arkive's zip reader) are collaborators: their observable behaviour is a
  parameter of the model (an archive member carries the bytes its stream produces, a sink
  says which of its operations fail, a save consumer is the list of its answers) or is
  written down from the specification, and marked so.
\<close>

subsection \<open>64-bit signed arithmetic\<close>

text \<open>
  Go's \<^verbatim>\<open>int64\<close> is modelled by \<open>int\<close> with the wrap-around written out:
  \<open>wrap64\<close> maps an integer to its two's complement representative.
\<close>

definition wrap64 :: "int \<Rightarrow> int" where
  "wrap64 x = (x + 2 ^ 63) mod 2 ^ 64 - 2 ^ 63"

definition add64 :: "int \<Rightarrow> int \<Rightarrow> int" where
  "add64 a b = wrap64 (a + b)"

definition sub64 :: "int \<Rightarrow> int \<Rightarrow> int" where
  "sub64 a b = wrap64 (a - b)"

text \<open>The conversion \<^verbatim>\<open>int64(x)\<close> of a \<^verbatim>\<open>uint64\<close>.\<close>

definition int64 :: "64 word \<Rightarrow> int" where
  "int64 x = sint x"

subsection \<open>Data model\<close>

type_synonym byte = "8 word"

datatype entry_kind = EntryKindDir | EntryKindSymlink | EntryKindFile

text \<open>\<^verbatim>\<open>savior.Entry\<close>, with the fields \<^verbatim>\<open>zipFileEntry\<close> and \<^verbatim>\<open>Resume\<close> use.\<close>

record entry =
  CanonicalPath :: string
  CompressedSize :: int
  UncompressedSize :: int
  Mode :: "32 word"
  Kind :: entry_kind
  WriteOffset :: int

text \<open>
  \<^verbatim>\<open>savior.SourceCheckpoint\<close>: opaque to the extractor except for \<^verbatim>\<open>Offset\<close>,
  which \<^verbatim>\<open>Resume\<close> prints.
\<close>

record source_checkpoint =
  Offset :: int

text \<open>
  A progress value is the quotient \<^verbatim>\<open>float64(a) / float64(b)\<close>. It is kept as the pair
  of its integer operands; \<open>ratio_val\<close> reads it as a number when the divisor is not
  zero (Go yields NaN or an infinity there, which is no number in \<open>[0,1]\<close>).
\<close>

datatype ratio = Ratio int int


text \<open>\<^verbatim>\<open>savior.ExtractorCheckpoint\<close>.\<close>

record checkpoint =
  EntryIndex :: int
  Progress :: ratio
  Entry :: "entry option"
  SourceCheckpoint :: "source_checkpoint option"

text \<open>
  One member of \<^verbatim>\<open>zr.File\<close>. The first five fields are the header fields
  \<^verbatim>\<open>Resume\<close> reads. The others say what reading the member yields: \<open>payload\<close> is
  the decoded byte stream, \<open>corrupt\<close> says that the stream ends with a decode error
  instead of end-of-file, \<open>blocks\<close> lists the offsets of the decoded stream at which a
  Deflate stream can be resumed, \<open>offset_err\<close> and \<open>open_err\<close> say that
  \<^verbatim>\<open>DataOffset\<close> and \<^verbatim>\<open>Open\<close> fail.
\<close>

record zip_file =
  Name :: string
  FileMode :: "32 word"
  Method :: "16 word"
  CompressedSize64 :: "64 word"
  UncompressedSize64 :: "64 word"
  payload :: "byte list"
  corrupt :: bool
  blocks :: "nat list"
  offset_err :: bool
  open_err :: bool

definition Store :: "16 word" where
  "Store = 0"

definition Deflate :: "16 word" where
  "Deflate = 8"

text \<open>Go's \<^verbatim>\<open>os.ModeDir\<close> and \<^verbatim>\<open>os.ModeSymlink\<close>.\<close>

definition ModeDir :: "32 word" where
  "ModeDir = push_bit 31 1"

definition ModeSymlink :: "32 word" where
  "ModeSymlink = push_bit 27 1"

text \<open>
  \<^verbatim>\<open>filepath.ToSlash\<close> replaces the platform's separator by a slash; the separator of
  the model is the slash itself (a Unix build).
\<close>

definition Separator :: char where
  "Separator = CHR ''/''"

definition ToSlash :: "string \<Rightarrow> string" where
  "ToSlash name = map (\<lambda>c. if c = Separator then CHR ''/'' else c) name"

definition zipFileEntry :: "zip_file \<Rightarrow> entry" where
  "zipFileEntry zf =
     \<lparr> CanonicalPath = ToSlash (Name zf),
       CompressedSize = int64 (CompressedSize64 zf),
       UncompressedSize = int64 (UncompressedSize64 zf),
       Mode = FileMode zf,
       Kind = (if FileMode zf AND ModeDir \<noteq> 0 then EntryKindDir
               else if FileMode zf AND ModeSymlink \<noteq> 0 then EntryKindSymlink
               else EntryKindFile),
       WriteOffset = 0 \<rparr>"

subsection \<open>Collaborators\<close>

datatype error =
    ErrStop
  | ErrPreallocate | ErrMkdir | ErrSymlink | ErrGetWriter | ErrWrite | ErrSync
  | ErrOpen | ErrRead | ErrDataOffset | ErrSourceResume | ErrDiscard
  | ErrSave
  | PanicIndex

datatype sink_op = OpPreallocate | OpMkdir | OpSymlink | OpGetWriter | OpWrite | OpSync

text \<open>
  A \<^verbatim>\<open>savior.Sink\<close> is an interface; what the extractor sees of it is which calls
  return an error. \<open>fails s op path\<close> says that operation \<open>op\<close> on the entry at
  \<open>path\<close> fails.
\<close>

record sink =
  fails :: "sink_op \<Rightarrow> string \<Rightarrow> bool"

datatype save_action = AfterSaveContinue | AfterSaveStop

text \<open>
  The save consumer and the pace of the copy. One element is consumed per chunk the
  Copier moves: the chunk's length (the number of bytes the Source's \<^verbatim>\<open>Read\<close> hands
  over, cut at the end of the stream) and what happens after it, no save point
  (\<open>NoSave\<close>) or a save point, at which \<^verbatim>\<open>Save\<close> answers with an action or fails
  (\<open>None\<close>). When the list is used up the rest of a stream comes as one chunk.
\<close>

datatype tick = NoSave | SavePoint "save_action option"

type_synonym schedule = "(nat \<times> tick) list"

text \<open>
  Everything \<^verbatim>\<open>Resume\<close> does to the outside is recorded, in order, in a log: the calls
  on the sink and on its writers that were carried out (a call that fails is not
  recorded: its error is the result), the bytes discarded from a Source, the progress
  values handed to the consumer, the checkpoints offered to the save consumer (as they
  are at that moment) with the answer, and the debug line at the head of the loop.
\<close>

datatype event =
    Doing int
  | Preallocate entry
  | Mkdir entry
  | Symlink entry "byte list"
  | GetWriter entry
  | Write string int "byte list"
  | Sync string
  | Discard string int
  | ProgressEv ratio
  | Save checkpoint save_action

record ZipExtractor =
  zr :: "zip_file list"
  saveConsumer :: schedule
  flateThreshold :: int

definition defaultFlateThreshold :: int where
  "defaultFlateThreshold = 1 * 1024 * 1024"

definition SetFlateThreshold :: "ZipExtractor \<Rightarrow> int \<Rightarrow> ZipExtractor" where
  "SetFlateThreshold ze t = ze\<lparr>flateThreshold := t\<rparr>"

definition SetSaveConsumer :: "ZipExtractor \<Rightarrow> schedule \<Rightarrow> ZipExtractor" where
  "SetSaveConsumer ze sc = ze\<lparr>saveConsumer := sc\<rparr>"

definition FlateThreshold :: "ZipExtractor \<Rightarrow> int" where
  "FlateThreshold ze =
     (if flateThreshold ze > 0 then flateThreshold ze else defaultFlateThreshold)"

text \<open>The mutable variables of one call of \<^verbatim>\<open>Resume\<close>.\<close>

record run_state =
  cp :: checkpoint
  doneBytes :: int
  stopError :: bool
  trace :: "event list"

definition emit :: "event \<Rightarrow> run_state \<Rightarrow> run_state" where
  "emit e st = st\<lparr>trace := trace st @ [e]\<rparr>"

text \<open>
  \<^verbatim>\<open>entry\<close> and \<^verbatim>\<open>checkpoint.Entry\<close> are one pointer: the entry of the run is the
  one stored in the checkpoint. The body of the loop stores an entry before anything
  reads it (lines 126-129), so \<open>cur_entry\<close> is only ever applied to a state whose
  checkpoint has one.
\<close>

definition cur_entry :: "run_state \<Rightarrow> entry" where
  "cur_entry st = the (Entry (cp st))"

definition set_entry :: "entry \<Rightarrow> run_state \<Rightarrow> run_state" where
  "set_entry e st = st\<lparr>cp := (cp st)\<lparr>Entry := Some e\<rparr>\<rparr>"

subsubsection \<open>Source\<close>

text \<open>
  Modelled from the spec: the savior Source (seeksource, flatesource), which is not among
  the sources. A Source produces the bytes of its member sequentially. \<^verbatim>\<open>Resume\<close> with
  no checkpoint starts at offset 0; with a checkpoint it returns the checkpoint's offset,
  or fails when the checkpoint is invalid for the format: a raw reader resumes at any
  offset of its stream, a decompressor only at one of its block boundaries.
\<close>

definition resumable_at :: "zip_file \<Rightarrow> int \<Rightarrow> bool" where
  "resumable_at zf off =
     (0 \<le> off \<and> off \<le> int (length (payload zf)) \<and>
      (if Method zf = Deflate then nat off \<in> set (blocks zf) else True))"

definition source_Resume :: "zip_file \<Rightarrow> source_checkpoint option \<Rightarrow> int option" where
  "source_Resume zf c =
     (case c of
        None \<Rightarrow> Some 0
      | Some sc \<Rightarrow> if resumable_at zf (Offset sc) then Some (Offset sc) else None)"

text \<open>
  Modelled from the spec: the fresh SourceCheckpoint a Source hands to its save consumer
  when it has produced \<open>pos\<close> bytes. A raw reader's is its byte offset; a decompressor's
  is the last block boundary it has passed, and none before the first.
\<close>

definition source_Save :: "zip_file \<Rightarrow> nat \<Rightarrow> source_checkpoint option" where
  "source_Save zf pos =
     (if Method zf = Deflate then
        (case filter (\<lambda>b. b \<le> pos) (blocks zf) of
           [] \<Rightarrow> None
         | b # bs \<Rightarrow> Some \<lparr> Offset = int (Max (set (b # bs))) \<rparr>)
      else Some \<lparr> Offset = int pos \<rparr>)"

text \<open>
  Modelled from the spec: \<^verbatim>\<open>savior.DiscardByRead\<close> reads and drops \<open>delta\<close> bytes of
  the Source, and fails when the stream ends before. The result is the Source's new
  offset.
\<close>

definition DiscardByRead :: "zip_file \<Rightarrow> nat \<Rightarrow> int \<Rightarrow> nat option" where
  "DiscardByRead zf pos delta =
     (if 0 \<le> delta \<and> pos + nat delta \<le> length (payload zf) then Some (pos + nat delta)
      else None)"

text \<open>What the end of a member's stream is: end-of-file, or a decode error.\<close>

definition stream_end :: "zip_file \<Rightarrow> error option" where
  "stream_end zf = (if corrupt zf then Some ErrRead else None)"

subsubsection \<open>The closures of Resume\<close>

text \<open>\<^verbatim>\<open>computeProgress\<close> (lines 224-227).\<close>

definition computeProgress :: "int \<Rightarrow> run_state \<Rightarrow> ratio" where
  "computeProgress totalBytes st =
     (let actualDoneBytes = add64 (doneBytes st) (WriteOffset (cur_entry st))
      in Ratio actualDoneBytes totalBytes)"

text \<open>
  \<^verbatim>\<open>OnSave\<close> (lines 230-254), called by the Source with its fresh checkpoint; \<open>answer\<close>
  is what \<^verbatim>\<open>saveConsumer.Save\<close> returns. The result is the callback's error.
\<close>

definition OnSave ::
  "sink \<Rightarrow> int \<Rightarrow> source_checkpoint option \<Rightarrow> save_action option \<Rightarrow> run_state
     \<Rightarrow> error option \<times> run_state" where
  "OnSave snk totalBytes sourceCheckpoint answer st =
     (let st1 = st\<lparr>cp := (cp st)\<lparr>SourceCheckpoint := sourceCheckpoint\<rparr>\<rparr>;
          path = CanonicalPath (cur_entry st1)
      in if fails snk OpSync path then (Some ErrSync, st1)
         else
           let st2 = emit (Sync path) st1;
               st3 = st2\<lparr>cp := (cp st2)\<lparr>Progress := computeProgress totalBytes st2\<rparr>\<rparr>
           in case answer of
                None \<Rightarrow> (Some ErrSave, st3)
              | Some action \<Rightarrow>
                  let st4 = emit (Save (cp st3) action) st3
                  in if action = AfterSaveStop then (None, st4\<lparr>stopError := True\<rparr>)
                     else (None, st4))"

subsubsection \<open>Copier\<close>

text \<open>
  Modelled from the spec: one chunk of \<^verbatim>\<open>Copier.Do\<close>. The chunk is written through the
  sink's writer, which appends at the entry's write offset; the entry's write offset
  advances by the chunk's length; progress is emitted.
\<close>

definition copy_chunk :: "sink \<Rightarrow> int \<Rightarrow> byte list \<Rightarrow> run_state \<Rightarrow> error option \<times> run_state" where
  "copy_chunk snk totalBytes chunk st =
     (let e = cur_entry st
      in if fails snk OpWrite (CanonicalPath e) then (Some ErrWrite, st)
         else
           let st1 = emit (Write (CanonicalPath e) (WriteOffset e) chunk) st;
               st2 = set_entry (e\<lparr>WriteOffset := WriteOffset e + int (length chunk)\<rparr>) st1
           in (None, emit (ProgressEv (computeProgress totalBytes st2)) st2))"

text \<open>
  Modelled from the spec: one turn of the loop of \<^verbatim>\<open>Copier.Do\<close>, which is not among
  the sources. \<open>n\<close> bytes (fewer at the end of the stream) are read from the Source at
  offset \<open>pos\<close> and written. The end of the stream ends the copy, with the stream's
  error if it has one. Otherwise the Source may have reached a save point: it then calls
  \<open>OnSave\<close> with its fresh checkpoint, and an error of the callback is the error of the
  copy. A stop requested by the callback is seen here, between two chunks: the loop ends,
  with no error. The result is \<open>Inl\<close> when the loop ends, with its error, and \<open>Inr\<close>
  with the Source's new offset when it goes on.
\<close>

definition copier_step ::
  "sink \<Rightarrow> zip_file \<Rightarrow> int \<Rightarrow> nat \<times> tick \<Rightarrow> nat \<Rightarrow> run_state
     \<Rightarrow> (error option \<times> run_state) + (nat \<times> run_state)" where
  "copier_step snk zf totalBytes nt pos st =
     (let chunk = take (fst nt) (drop pos (payload zf));
          pos' = pos + length chunk
      in case copy_chunk snk totalBytes chunk st of
           (Some e, st') \<Rightarrow> Inl (Some e, st')
         | (None, st') \<Rightarrow>
             if length (payload zf) \<le> pos' then Inl (stream_end zf, st')
             else
               (case snd nt of
                  NoSave \<Rightarrow> Inr (pos', st')
                | SavePoint answer \<Rightarrow>
                    (case OnSave snk totalBytes (source_Save zf pos') answer st' of
                       (Some e, st'') \<Rightarrow> Inl (Some e, st'')
                     | (None, st'') \<Rightarrow>
                         if stopError st'' then Inl (None, st'') else Inr (pos', st''))))"

text \<open>
  Modelled from the spec: \<^verbatim>\<open>Copier.Do\<close>. It moves the Source's bytes chunk by chunk
  to the writer, one element of the schedule per chunk; when the schedule is used up the
  rest of the stream is one chunk. The arguments are the schedule that is left and the
  Source's offset; the result has the schedule left over.
\<close>

fun copier_Do ::
  "sink \<Rightarrow> zip_file \<Rightarrow> int \<Rightarrow> schedule \<Rightarrow> nat \<Rightarrow> run_state
     \<Rightarrow> error option \<times> schedule \<times> run_state" where
  "copier_Do snk zf totalBytes [] pos st =
     (case copy_chunk snk totalBytes (drop pos (payload zf)) st of
        (Some e, st') \<Rightarrow> (Some e, [], st')
      | (None, st') \<Rightarrow> (stream_end zf, [], st'))"
| "copier_Do snk zf totalBytes (nt # sch) pos st =
     (case copier_step snk zf totalBytes nt pos st of
        Inl (err, st') \<Rightarrow> (err, sch, st')
      | Inr (pos', st') \<Rightarrow> copier_Do snk zf totalBytes sch pos' st')"

subsection \<open>Resume\<close>

text \<open>
  Lines 88-96: the total of the uncompressed sizes, and the part of it that belongs to
  the entries before the checkpoint's. \<open>i\<close> is the index of the head of the list.
\<close>

fun count_bytes :: "zip_file list \<Rightarrow> int \<Rightarrow> int \<Rightarrow> int \<times> int \<Rightarrow> int \<times> int" where
  "count_bytes [] i idx (dn, tot) = (dn, tot)"
| "count_bytes (zf # zfs) i idx (dn, tot) =
     (let sz = int64 (UncompressedSize64 zf);
          tot' = add64 tot sz;
          dn' = (if i < idx then add64 dn sz else dn)
      in count_bytes zfs (i + 1) idx (dn', tot'))"

text \<open>Lines 101-109: the pre-allocation of a fresh run.\<close>

fun preallocate_all :: "sink \<Rightarrow> zip_file list \<Rightarrow> run_state \<Rightarrow> error option \<times> run_state" where
  "preallocate_all snk [] st = (None, st)"
| "preallocate_all snk (zf # zfs) st =
     (let entry = zipFileEntry zf
      in if Kind entry = EntryKindFile then
           if fails snk OpPreallocate (CanonicalPath entry) then (Some ErrPreallocate, st)
           else preallocate_all snk zfs (emit (Preallocate entry) st)
         else preallocate_all snk zfs st)"

text \<open>
  Lines 139-155: a symlink's target is read whole from the archive
  (\<^verbatim>\<open>ioutil.ReadAll\<close>), then the link is made.
\<close>

definition do_symlink :: "sink \<Rightarrow> zip_file \<Rightarrow> run_state \<Rightarrow> error option \<times> run_state" where
  "do_symlink snk zf st =
     (let entry = cur_entry st
      in if open_err zf then (Some ErrOpen, st)
         else if corrupt zf then (Some ErrRead, st)
         else if fails snk OpSymlink (CanonicalPath entry) then (Some ErrSymlink, st)
         else (None, emit (Symlink entry (payload zf)) st))"

text \<open>
  Lines 181-201: no Source for this storage method. The write offset is reset, the
  member is opened and copied whole with \<^verbatim>\<open>io.Copy\<close>, whose writes are recorded as
  the one write of their concatenation, at the offset of the writer the sink gave.
  \<^verbatim>\<open>io.Copy\<close> does not touch the entry's write offset.
\<close>

definition full_copy :: "sink \<Rightarrow> zip_file \<Rightarrow> run_state \<Rightarrow> error option \<times> run_state" where
  "full_copy snk zf st =
     (let entry = (cur_entry st)\<lparr>WriteOffset := 0\<rparr>;
          st1 = set_entry entry st
      in if open_err zf then (Some ErrOpen, st1)
         else if fails snk OpGetWriter (CanonicalPath entry) then (Some ErrGetWriter, st1)
         else
           let st2 = emit (GetWriter entry) st1
           in if fails snk OpWrite (CanonicalPath entry) then (Some ErrWrite, st2)
              else (stream_end zf,
                    emit (Write (CanonicalPath entry) (WriteOffset entry) (payload zf)) st2))"

text \<open>
  Lines 208-216: the Source resumed at \<open>offset\<close> is aligned with the writer. When it
  is behind the entry's write offset the difference is discarded from it. The result is
  the Source's offset after that, or nothing when discarding failed.
\<close>

definition align :: "zip_file \<Rightarrow> int \<Rightarrow> run_state \<Rightarrow> (nat \<times> run_state) option" where
  "align zf offset st =
     (let entry = cur_entry st
      in if offset < WriteOffset entry then
           let delta = sub64 (WriteOffset entry) offset
           in (case DiscardByRead zf (nat offset) delta of
                 None \<Rightarrow> None
               | Some pos \<Rightarrow> Some (pos, emit (Discard (CanonicalPath entry) delta) st))
         else Some (nat offset, st))"

text \<open>
  Lines 161-176 and 203-270: a Source for the member (raw for Store, decompressing for
  Deflate), resumed from the checkpoint's source checkpoint; the alignment of the Source
  with the writer; the writer; the copy.
\<close>

definition resumable_copy ::
  "sink \<Rightarrow> zip_file \<Rightarrow> int \<Rightarrow> schedule \<Rightarrow> run_state \<Rightarrow> error option \<times> schedule \<times> run_state" where
  "resumable_copy snk zf totalBytes sch st =
     (if offset_err zf then (Some ErrDataOffset, sch, st)
      else
        case source_Resume zf (SourceCheckpoint (cp st)) of
          None \<Rightarrow> (Some ErrSourceResume, sch, st)
        | Some offset \<Rightarrow>
            (case align zf offset st of
               None \<Rightarrow> (Some ErrDiscard, sch, st)
             | Some (pos, st1) \<Rightarrow>
                 if fails snk OpGetWriter (CanonicalPath (cur_entry st1))
                 then (Some ErrGetWriter, sch, st1)
                 else copier_Do snk zf totalBytes sch pos (emit (GetWriter (cur_entry st1)) st1)))"

text \<open>Lines 123-276: the body of the loop, for the member \<open>zf\<close> at \<open>entryIndex\<close>.\<close>

definition do_entry ::
  "sink \<Rightarrow> int \<Rightarrow> int \<Rightarrow> zip_file \<Rightarrow> schedule \<Rightarrow> run_state
     \<Rightarrow> error option \<times> schedule \<times> run_state" where
  "do_entry snk totalBytes entryIndex zf sch st =
     (let st1 = st\<lparr>cp := (cp st)\<lparr>EntryIndex := entryIndex\<rparr>\<rparr>;
          st2 = (if Entry (cp st1) = None then set_entry (zipFileEntry zf) st1 else st1);
          entry = cur_entry st2;
          (err, sch', st3) =
            (case Kind entry of
               EntryKindDir \<Rightarrow>
                 if fails snk OpMkdir (CanonicalPath entry) then (Some ErrMkdir, sch, st2)
                 else (None, sch, emit (Mkdir entry) st2)
             | EntryKindSymlink \<Rightarrow>
                 (case do_symlink snk zf st2 of (e, s) \<Rightarrow> (e, sch, s))
             | EntryKindFile \<Rightarrow>
                 if Method zf = Store \<or> Method zf = Deflate
                 then resumable_copy snk zf totalBytes sch st2
                 else (case full_copy snk zf st2 of (e, s) \<Rightarrow> (e, sch, s)))
      in case err of
           Some e \<Rightarrow> (Some e, sch', st3)
         | None \<Rightarrow>
             (None, sch',
              st3\<lparr>doneBytes := add64 (doneBytes st3) (int64 (UncompressedSize64 zf))\<rparr>))"

text \<open>
  Lines 119-283: the loop over the entries. Indexing \<^verbatim>\<open>zr.File\<close> with a negative
  index panics.
\<close>

function entry_loop ::
  "sink \<Rightarrow> zip_file list \<Rightarrow> int \<Rightarrow> int \<Rightarrow> schedule \<Rightarrow> run_state \<Rightarrow> error option \<times> run_state" where
  "entry_loop snk files totalBytes entryIndex sch st =
     (if entryIndex < int (length files) \<and> \<not> stopError st then
        let st0 = emit (Doing entryIndex) st
        in if entryIndex < 0 then (Some PanicIndex, st0)
           else
             (case do_entry snk totalBytes entryIndex (files ! nat entryIndex) sch st0 of
                (Some e, sch', st') \<Rightarrow> (Some e, st')
              | (None, sch', st') \<Rightarrow>
                  entry_loop snk files totalBytes (entryIndex + 1) sch'
                    (st'\<lparr>cp := (cp st')\<lparr>Entry := None, SourceCheckpoint := None\<rparr>\<rparr>))
      else (None, st))"
  by pat_completeness auto
termination
  by (relation "measure (\<lambda>(snk, files, totalBytes, entryIndex, sch, st).
        nat (int (length files) - entryIndex))") auto

declare entry_loop.simps [simp del]

text \<open>
  Lines 71-297. The result is what \<^verbatim>\<open>Resume\<close> returns (the entries of the
  \<^verbatim>\<open>ExtractorResult\<close>, or the error), the checkpoint object as the call leaves it, and
  the log of the call.
\<close>

definition Resume ::
  "ZipExtractor \<Rightarrow> checkpoint option \<Rightarrow> sink \<Rightarrow> (error + entry list) \<times> checkpoint \<times> event list" where
  "Resume ze checkpoint snk =
     (let isFresh = (checkpoint = None);
          cp0 = (case checkpoint of
                   None \<Rightarrow> \<lparr> EntryIndex = 0, Progress = Ratio 0 1, Entry = None,
                              SourceCheckpoint = None \<rparr>
                 | Some c \<Rightarrow> c);
          (dn, totalBytes) = count_bytes (zr ze) 0 (EntryIndex cp0) (0, 0);
          st0 = \<lparr> cp = cp0, doneBytes = dn, stopError = False, trace = [] \<rparr>
      in case (if isFresh then preallocate_all snk (zr ze) st0 else (None, st0)) of
           (Some e, st1) \<Rightarrow> (Inl e, cp st1, trace st1)
         | (None, st1) \<Rightarrow>
             (case entry_loop snk (zr ze) totalBytes (EntryIndex cp0) (saveConsumer ze) st1 of
                (Some e, st2) \<Rightarrow> (Inl e, cp st2, trace st2)
              | (None, st2) \<Rightarrow>
                  if stopError st2 then (Inl ErrStop, cp st2, trace st2)
                  else (Inr (map zipFileEntry (zr ze)), cp st2, trace st2)))"

section \<open>Notions used in the statements and proofs\<close>

subsection \<open>How a trace grows\<close>

text \<open>
  \<open>extends P st st'\<close>: the trace of \<open>st'\<close> is the trace of \<open>st\<close> followed by events
  that all satisfy \<open>P\<close>.
\<close>

definition extends :: "(event \<Rightarrow> bool) \<Rightarrow> run_state \<Rightarrow> run_state \<Rightarrow> bool" where
  "extends P st st' \<longleftrightarrow> (\<exists>evs. trace st' = trace st @ evs \<and> list_all P evs)"

text \<open>
  Classes of predicates on events: those that hold of every event the Copier and the save
  callback record (a save with a stop answer apart, and a save only when the checkpoint
  has its entry), of every event of the loop's body, of every event of the loop.
\<close>

definition copy_events :: "(event \<Rightarrow> bool) \<Rightarrow> bool" where
  "copy_events P \<longleftrightarrow>
     (\<forall>p off bs. P (Write p off bs)) \<and> (\<forall>r. P (ProgressEv r)) \<and> (\<forall>p. P (Sync p)) \<and>
     (\<forall>c a. Entry c \<noteq> None \<and> a \<noteq> AfterSaveStop \<longrightarrow> P (Save c a))"

definition body_events :: "(event \<Rightarrow> bool) \<Rightarrow> bool" where
  "body_events P \<longleftrightarrow>
     copy_events P \<and> (\<forall>e. P (GetWriter e)) \<and> (\<forall>p d. P (Discard p d)) \<and>
     (\<forall>e. P (Mkdir e)) \<and> (\<forall>e bs. P (Symlink e bs))"

text \<open>
  \<open>outcome P st st' err\<close>: how a piece of the run that starts in \<open>st\<close>, not stopped,
  ends. The error is never the stop sentinel. Either no stop was requested and the new
  events satisfy \<open>P\<close>; or a stop was requested, there is no error, and the new events
  satisfy \<open>P\<close> up to the last one, which is the save that was answered with the stop.
\<close>

definition outcome :: "(event \<Rightarrow> bool) \<Rightarrow> run_state \<Rightarrow> run_state \<Rightarrow> error option \<Rightarrow> bool" where
  "outcome P st st' err \<longleftrightarrow>
     err \<noteq> Some ErrStop \<and>
     (if stopError st'
      then err = None \<and>
           (\<exists>evs c. trace st' = trace st @ evs @ [Save c AfterSaveStop] \<and> list_all P evs \<and>
                    Entry c \<noteq> None)
      else extends P st st')"

definition loop_events :: "(event \<Rightarrow> bool) \<Rightarrow> bool" where
  "loop_events P \<longleftrightarrow> body_events P \<and> (\<forall>i. P (Doing i))"

subsection \<open>The parts of a call of Resume\<close>

text \<open>The file-kind entries of an archive, in archive order.\<close>

definition file_entries :: "zip_file list \<Rightarrow> entry list" where
  "file_entries files = filter (\<lambda>e. Kind e = EntryKindFile) (map zipFileEntry files)"

text \<open>
  The checkpoint a call works on (lines 76-84), the variables before the loop, and the
  value returned after it (lines 277-296).
\<close>

definition initial_checkpoint :: "checkpoint option \<Rightarrow> checkpoint" where
  "initial_checkpoint checkpoint =
     (case checkpoint of
        None \<Rightarrow> \<lparr> EntryIndex = 0, Progress = Ratio 0 1, Entry = None, SourceCheckpoint = None \<rparr>
      | Some c \<Rightarrow> c)"

definition initial_state :: "zip_file list \<Rightarrow> checkpoint option \<Rightarrow> run_state" where
  "initial_state files checkpoint =
     \<lparr> cp = initial_checkpoint checkpoint,
       doneBytes = fst (count_bytes files 0 (EntryIndex (initial_checkpoint checkpoint)) (0, 0)),
       stopError = False, trace = [] \<rparr>"

definition result_of :: "zip_file list \<Rightarrow> error option \<times> run_state \<Rightarrow> (error + entry list) \<times> checkpoint \<times> event list" where
  "result_of files r =
     (case r of
        (Some e, st) \<Rightarrow> (Inl e, cp st, trace st)
      | (None, st) \<Rightarrow>
          if stopError st then (Inl ErrStop, cp st, trace st)
          else (Inr (map zipFileEntry files), cp st, trace st))"

subsection \<open>Reading a trace\<close>

text \<open>The entry indices the loop announced (the debug line at its head), in order.\<close>

fun doings :: "event list \<Rightarrow> int list" where
  "doings [] = []"
| "doings (Doing i # evs) = i # doings evs"
| "doings (ev # evs) = doings evs"

text \<open>
  The uncompressed sizes of the members, as the \<^verbatim>\<open>int64\<close> conversions \<^verbatim>\<open>Resume\<close>
  adds up, and as the unsigned numbers of the headers.
\<close>

definition sizes :: "zip_file list \<Rightarrow> int list" where
  "sizes files = map (\<lambda>zf. int64 (UncompressedSize64 zf)) files"

definition usizes :: "zip_file list \<Rightarrow> int list" where
  "usizes files = map (\<lambda>zf. uint (UncompressedSize64 zf)) files"

text \<open>
  \<open>appends path off evs\<close>: the writes among the events \<open>evs\<close> all go to \<open>path\<close> and
  each starts where the one before ended, the first at \<open>off\<close>; the result is the bytes
  they append, and \<open>None\<close> when a write is elsewhere.
\<close>

fun appends :: "string \<Rightarrow> int \<Rightarrow> event list \<Rightarrow> byte list option" where
  "appends path off [] = Some []"
| "appends path off (Write p off' bs # evs) =
     (if p = path \<and> off' = off
      then map_option (\<lambda>rest. bs @ rest) (appends path (off + int (length bs)) evs)
      else None)"
| "appends path off (ev # evs) = appends path off evs"

text \<open>The events of a copy: writes, progress reports, syncs and saves.\<close>

fun copy_event :: "event \<Rightarrow> bool" where
  "copy_event (Write p off bs) = True"
| "copy_event (ProgressEv r) = True"
| "copy_event (Sync p) = True"
| "copy_event (Save c a) = True"
| "copy_event ev = False"

text \<open>\<open>stream_at zf pos bs\<close>: the stream of \<open>zf\<close> holds the bytes \<open>bs\<close> at offset \<open>pos\<close>.\<close>

definition stream_at :: "zip_file \<Rightarrow> nat \<Rightarrow> byte list \<Rightarrow> bool" where
  "stream_at zf pos bs \<longleftrightarrow> take (length bs) (drop pos (payload zf)) = bs"

text \<open>
  \<open>copied zf e pos st st' bs\<close>: from \<open>st\<close> to \<open>st'\<close> the bytes \<open>bs\<close>, which the stream
  of \<open>zf\<close> holds at offset \<open>pos\<close>, were appended to the writer of entry \<open>e\<close> at its
  write offset, and the entry's write offset advanced by their number; nothing else
  happened but progress reports, syncs and saves.
\<close>

definition copied :: "zip_file \<Rightarrow> entry \<Rightarrow> nat \<Rightarrow> run_state \<Rightarrow> run_state \<Rightarrow> byte list \<Rightarrow> bool" where
  "copied zf e pos st st' bs \<longleftrightarrow>
     (\<exists>evs. trace st' = trace st @ evs \<and> list_all copy_event evs \<and>
            appends (CanonicalPath e) (WriteOffset e) evs = Some bs) \<and>
     stream_at zf pos bs \<and>
     Entry (cp st') = Some (e\<lparr>WriteOffset := WriteOffset e + int (length bs)\<rparr>) \<and>
     EntryIndex (cp st') = EntryIndex (cp st) \<and>
     doneBytes st' = doneBytes st"

text \<open>
  \<open>stopped_at zf pos st'\<close>: the copy was stopped when the Source had produced \<open>pos\<close>
  bytes, short of the end of the stream; the last thing that happened is the save that
  was answered with the stop, and it offered the checkpoint as it still is, with the
  Source's checkpoint for that offset.
\<close>

definition stopped_at :: "zip_file \<Rightarrow> nat \<Rightarrow> run_state \<Rightarrow> bool" where
  "stopped_at zf pos st' \<longleftrightarrow>
     pos < length (payload zf) \<and> SourceCheckpoint (cp st') = source_Save zf pos \<and>
     trace st' \<noteq> [] \<and> last (trace st') = Save (cp st') AfterSaveStop"

text \<open>An environment in which nothing fails.\<close>

definition sink_ok :: "sink \<Rightarrow> bool" where
  "sink_ok snk \<longleftrightarrow> (\<forall>op path. \<not> fails snk op path)"

definition sched_ok :: "schedule \<Rightarrow> bool" where
  "sched_ok sch \<longleftrightarrow> list_all (\<lambda>nt. snd nt \<noteq> SavePoint None) sch"

subsection \<open>The files of the sink\<close>

text \<open>
  Modelled from the spec: the content of a file of the sink after \<open>bs\<close> is written at
  offset \<open>off\<close> over the content \<open>c\<close>. The bytes replace what was there and extend
  the file; a gap before them is filled with zeros. Writing nothing changes nothing.
\<close>

definition write_at :: "int \<Rightarrow> byte list \<Rightarrow> byte list \<Rightarrow> byte list" where
  "write_at off bs c =
     (if bs = [] \<or> off < 0 then c
      else take (nat off) (c @ replicate (nat off - length c) 0) @ bs @
           drop (nat off + length bs) c)"

text \<open>What an event does to the files of the sink: only a write changes their content.\<close>

fun apply_event :: "event \<Rightarrow> (string \<Rightarrow> byte list) \<Rightarrow> (string \<Rightarrow> byte list)" where
  "apply_event (Write p off bs) f = f(p := write_at off bs (f p))"
| "apply_event ev f = f"

text \<open>The files after a log, from the files before it; the data written by a log.\<close>

definition store_of :: "(string \<Rightarrow> byte list) \<Rightarrow> event list \<Rightarrow> (string \<Rightarrow> byte list)" where
  "store_of f lg = fold apply_event lg f"

definition written :: "event list \<Rightarrow> string \<Rightarrow> byte list" where
  "written lg = store_of (\<lambda>path. []) lg"

text \<open>A save consumer that never answers with a stop.\<close>

definition never_stops :: "schedule \<Rightarrow> bool" where
  "never_stops sch \<longleftrightarrow> list_all (\<lambda>nt. snd nt \<noteq> SavePoint (Some AfterSaveStop)) sch"

text \<open>
  An archive whose members can be read: no call on it fails, no stream ends in an error,
  and the streams are shorter than \<open>2^63\<close> bytes.
\<close>

definition member_ok :: "zip_file \<Rightarrow> bool" where
  "member_ok zf \<longleftrightarrow>
     \<not> corrupt zf \<and> \<not> offset_err zf \<and> \<not> open_err zf \<and> int (length (payload zf)) < 2 ^ 63"

definition archive_ok :: "zip_file list \<Rightarrow> bool" where
  "archive_ok files \<longleftrightarrow> list_all member_ok files"

text \<open>
  \<open>entry_cp zf i c\<close>: the checkpoint \<open>c\<close> is one the engine offers while it copies the
  member \<open>zf\<close> at index \<open>i\<close> through a Source: its entry is the member's entry with a
  write offset inside the stream, and its source checkpoint is the Source's for that
  offset.
\<close>

definition entry_cp :: "zip_file \<Rightarrow> int \<Rightarrow> checkpoint \<Rightarrow> bool" where
  "entry_cp zf i c \<longleftrightarrow>
     EntryIndex c = i \<and>
     (case Entry c of
        None \<Rightarrow> False
      | Some e \<Rightarrow>
          e = (zipFileEntry zf)\<lparr>WriteOffset := WriteOffset e\<rparr> \<and>
          Kind e = EntryKindFile \<and> (Method zf = Store \<or> Method zf = Deflate) \<and>
          0 \<le> WriteOffset e \<and> WriteOffset e \<le> int (length (payload zf)) \<and>
          SourceCheckpoint c = source_Save zf (nat (WriteOffset e)))"

definition good_cp :: "zip_file list \<Rightarrow> checkpoint \<Rightarrow> bool" where
  "good_cp files c \<longleftrightarrow>
     0 \<le> EntryIndex c \<and> EntryIndex c < int (length files) \<and>
     entry_cp (files ! nat (EntryIndex c)) (EntryIndex c) c"

definition cp_offset :: "checkpoint \<Rightarrow> int" where
  "cp_offset c = (case Entry c of None \<Rightarrow> 0 | Some e \<Rightarrow> WriteOffset e)"

text \<open>
  The files once the member \<open>zf\<close> is extracted, its copy through a Source taken up at
  write offset \<open>w\<close>; and once the members from index \<open>i\<close> on are, the first taken up
  at \<open>w\<close>.
\<close>

definition entry_store :: "zip_file \<Rightarrow> int \<Rightarrow> (string \<Rightarrow> byte list) \<Rightarrow> (string \<Rightarrow> byte list)" where
  "entry_store zf w f =
     (let path = CanonicalPath (zipFileEntry zf)
      in if Kind (zipFileEntry zf) = EntryKindFile then
           if Method zf = Store \<or> Method zf = Deflate
           then f(path := write_at w (drop (nat w) (payload zf)) (f path))
           else f(path := write_at 0 (payload zf) (f path))
         else f)"

definition rest_store :: "zip_file list \<Rightarrow> nat \<Rightarrow> int \<Rightarrow> (string \<Rightarrow> byte list) \<Rightarrow> (string \<Rightarrow> byte list)" where
  "rest_store files i w f =
     (if i < length files
      then fold (\<lambda>zf. entry_store zf 0) (drop (Suc i) files) (entry_store (files ! i) w f)
      else f)"

text \<open>The checkpoint a caller has persisted last: the one of the last save of a log.\<close>

fun last_offered :: "event list \<Rightarrow> checkpoint option" where
  "last_offered [] = None"
| "last_offered (ev # evs) =
     (case last_offered evs of
        Some c \<Rightarrow> Some c
      | None \<Rightarrow> (case ev of Save c a \<Rightarrow> Some c | _ \<Rightarrow> None))"

text \<open>
  Extraction with interruptions. Each schedule of the list is the save consumer of one
  call of \<^verbatim>\<open>Resume\<close>; the first call has the checkpoint \<open>c\<close>. A call that returns the
  stop sentinel is followed by a call with the last checkpoint it offered. After the list
  a last call has the save consumer \<open>fin\<close>. The result is that of the last call made,
  and the log of all calls.
\<close>

fun interrupted ::
  "ZipExtractor \<Rightarrow> sink \<Rightarrow> schedule list \<Rightarrow> schedule \<Rightarrow> checkpoint option
     \<Rightarrow> (error + entry list) \<times> event list" where
  "interrupted ze snk [] fin c =
     (case Resume (SetSaveConsumer ze fin) c snk of (r, c', lg) \<Rightarrow> (r, lg))"
| "interrupted ze snk (s # ss) fin c =
     (case Resume (SetSaveConsumer ze s) c snk of
        (r, c', lg) \<Rightarrow>
          if r = Inl ErrStop
          then (case interrupted ze snk ss fin (last_offered lg) of (r', lg') \<Rightarrow> (r', lg @ lg'))
          else (r, lg))"

subsection \<open>Progress\<close>







subsection \<open>An example archive\<close>

text \<open>
  A stored file of three bytes, a directory and a deflated file of four bytes with block
  boundaries at 0 and 2; a sink that never fails; a save consumer that stops the run at
  the first save point, three bytes into the deflated file; the checkpoint it is offered
  there.
\<close>

definition ex_a :: zip_file where
  "ex_a = \<lparr> Name = ''a.txt'', FileMode = 0, Method = 0, CompressedSize64 = 3,
            UncompressedSize64 = 3, payload = [1, 2, 3], corrupt = False, blocks = [],
            offset_err = False, open_err = False \<rparr>"

definition ex_b :: zip_file where
  "ex_b = \<lparr> Name = ''b/'', FileMode = 0x80000000, Method = 0, CompressedSize64 = 0,
            UncompressedSize64 = 0, payload = [], corrupt = False, blocks = [],
            offset_err = False, open_err = False \<rparr>"

definition ex_c :: zip_file where
  "ex_c = \<lparr> Name = ''c.bin'', FileMode = 0, Method = 8, CompressedSize64 = 2,
            UncompressedSize64 = 4, payload = [4, 5, 6, 7], corrupt = False, blocks = [0, 2],
            offset_err = False, open_err = False \<rparr>"

definition ok_sink :: sink where
  "ok_sink = \<lparr> fails = (\<lambda>op path. False) \<rparr>"

definition ex_ze :: "schedule \<Rightarrow> ZipExtractor" where
  "ex_ze sch = \<lparr> zr = [ex_a, ex_b, ex_c], saveConsumer = sch, flateThreshold = 0 \<rparr>"

definition ex_stop :: schedule where
  "ex_stop = [(5, NoSave), (3, SavePoint (Some AfterSaveStop))]"

definition ex_saved :: checkpoint where
  "ex_saved = \<lparr> EntryIndex = 2, Progress = Ratio 6 7,
       Entry = Some ((zipFileEntry ex_c)\<lparr>WriteOffset := 3\<rparr>),
       SourceCheckpoint = Some \<lparr>Offset = 2\<rparr> \<rparr>"

text \<open>
  The variables of a run that is about to take up an entry with the checkpoint \<open>c\<close>; a
  checkpoint whose Source offset, 2, is ahead of its entry's write offset, 0; a member in
  a storage method that has no Source, and a checkpoint that says two of its bytes were
  written.
\<close>

definition ex_st :: "checkpoint \<Rightarrow> run_state" where
  "ex_st c = \<lparr> cp = c, doneBytes = 3, stopError = False, trace = [] \<rparr>"

definition ex_ahead :: checkpoint where
  "ex_ahead = \<lparr> EntryIndex = 2, Progress = Ratio 3 7, Entry = Some (zipFileEntry ex_c),
       SourceCheckpoint = Some \<lparr>Offset = 2\<rparr> \<rparr>"

definition ex_l :: zip_file where
  "ex_l = \<lparr> Name = ''l.xz'', FileMode = 0, Method = 14, CompressedSize64 = 2,
            UncompressedSize64 = 3, payload = [8, 9, 10], corrupt = False, blocks = [],
            offset_err = False, open_err = False \<rparr>"

definition ex_partial :: checkpoint where
  "ex_partial = \<lparr> EntryIndex = 0, Progress = Ratio 2 3,
       Entry = Some ((zipFileEntry ex_l)\<lparr>WriteOffset := 2\<rparr>), SourceCheckpoint = None \<rparr>"




section \<open>The shape of a trace\<close>

lemma extends_refl: "extends P st st"
  by (simp add: extends_def)

lemma extends_trans: "extends P a b \<Longrightarrow> extends P b c \<Longrightarrow> extends P a c"
  by (auto simp: extends_def)

lemma extends_emit: "P e \<Longrightarrow> extends P st (emit e st)"
  by (simp add: extends_def emit_def)

lemma extends_same_trace: "trace st' = trace st \<Longrightarrow> extends P st st'"
  by (simp add: extends_def)

lemma extends_trace_eq: "trace b' = trace b \<Longrightarrow> extends P a b \<Longrightarrow> extends P a b'"
  by (simp add: extends_def)

lemma copy_chunk_extends:
  assumes "copy_events P" "copy_chunk snk tot chunk st = (err, st')"
  shows "extends P st st' \<and> stopError st' = stopError st \<and> (err = None \<longrightarrow> Entry (cp st') \<noteq> None)
         \<and> err \<noteq> Some ErrStop"
  using assms
  by (auto simp: copy_chunk_def Let_def copy_events_def extends_def emit_def set_entry_def
      split: if_splits)

lemma OnSave_extends:
  assumes "copy_events P" "OnSave snk tot sc answer st = (err, st')" "Entry (cp st) \<noteq> None"
    "\<not> stopError st"
  shows "err \<noteq> Some ErrStop" "if stopError st'
         then err = None \<and> (\<exists>evs c. trace st' = trace st @ evs @ [Save c AfterSaveStop] \<and> list_all P evs
                 \<and> Entry c \<noteq> None)
         else extends P st st'"
  using assms
  by (auto simp: OnSave_def Let_def copy_events_def extends_def emit_def
      split: if_splits option.splits save_action.splits)

lemma outcome_extends:
  "extends P a b \<Longrightarrow> outcome P b c err \<Longrightarrow> outcome P a c err"
  by (auto simp: outcome_def extends_def)

lemma outcome_running:
  "\<not> stopError st' \<Longrightarrow> extends P st st' \<Longrightarrow> err \<noteq> Some ErrStop \<Longrightarrow> outcome P st st' err"
  by (simp add: outcome_def)

lemma outcome_same:
  "outcome P a b err \<Longrightarrow> trace b' = trace b \<Longrightarrow> stopError b' = stopError b
     \<Longrightarrow> outcome P a b' err"
  by (auto simp: outcome_def extends_def)

lemma outcome_step:
  assumes "copy_events P" "\<not> stopError st"
  shows "case copier_step snk zf tot nt pos st of
           Inl (err, st') \<Rightarrow> outcome P st st' err
         | Inr (pos', st') \<Rightarrow> extends P st st' \<and> \<not> stopError st'"
proof -
  let ?chunk = "take (fst nt) (drop pos (payload zf))"
  obtain e1 st1 where c: "copy_chunk snk tot ?chunk st = (e1, st1)"
    by (cases "copy_chunk snk tot ?chunk st")
  note cx = copy_chunk_extends [OF assms(1) c]
  show ?thesis
  proof (cases "e1 = None \<and> \<not> length (payload zf) \<le> pos + length ?chunk \<and> snd nt \<noteq> NoSave")
    case False
    then show ?thesis using c cx assms(2)
      by (auto simp: copier_step_def Let_def outcome_def stream_end_def split: option.splits tick.splits)
  next
    case True
    then obtain answer where t: "snd nt = SavePoint answer" by (cases "snd nt") auto
    obtain e2 st2 where s: "OnSave snk tot (source_Save zf (pos + length ?chunk)) answer st1 = (e2, st2)"
      by (cases "OnSave snk tot (source_Save zf (pos + length ?chunk)) answer st1")
    have "\<not> stopError st1" "Entry (cp st1) \<noteq> None" using cx True assms(2) by simp_all
    note sx = OnSave_extends [OF assms(1) s this(2) this(1)]
    have "copier_step snk zf tot nt pos st =
            (case e2 of Some e \<Rightarrow> Inl (Some e, st2)
             | None \<Rightarrow> if stopError st2 then Inl (None, st2) else Inr (pos + length ?chunk, st2))"
      using c True t s by (simp add: copier_step_def Let_def)
    moreover have "outcome P st1 st2 e2" using sx by (simp add: outcome_def)
    then have "outcome P st st2 e2" using cx by (blast intro: outcome_extends)
    ultimately show ?thesis
      by (auto simp: outcome_def split: option.splits)
  qed
qed

lemma copier_Do_outcome:
  assumes "copy_events P"
  shows "\<not> stopError st \<Longrightarrow> copier_Do snk zf tot sch pos st = (err, sch', st')
           \<Longrightarrow> outcome P st st' err"
proof (induction sch arbitrary: pos st)
  case Nil
  then show ?case
    using copy_chunk_extends [OF assms, of snk tot "drop pos (payload zf)" st]
    by (auto simp: outcome_def stream_end_def split: prod.splits option.splits if_splits)
next
  case (Cons nt sch)
  show ?case
  proof (cases "copier_step snk zf tot nt pos st")
    case (Inl r)
    then show ?thesis using outcome_step [OF assms Cons.prems(1), of snk zf tot nt pos] Cons.prems(2)
      by (auto split: prod.splits)
  next
    case (Inr r)
    obtain pos' st1 where r: "r = (pos', st1)" by (cases r)
    have x: "extends P st st1" "\<not> stopError st1"
      using outcome_step [OF assms Cons.prems(1), of snk zf tot nt pos] Inr r by simp_all
    have "copier_Do snk zf tot sch pos' st1 = (err, sch', st')"
      using Cons.prems(2) Inr r by simp
    from Cons.IH [OF x(2) this] x(1) show ?thesis by (blast intro: outcome_extends)
  qed
qed

lemma align_extends:
  assumes "\<And>p d. P (Discard p d)" "align zf offset st = Some (pos, st1)"
  shows "extends P st st1 \<and> stopError st1 = stopError st \<and> cp st1 = cp st
         \<and> doneBytes st1 = doneBytes st"
  using assms
  by (auto simp: align_def Let_def extends_def emit_def split: if_splits option.splits)

lemma resumable_copy_outcome:
  assumes "body_events P" "\<not> stopError st"
    "resumable_copy snk zf tot sch st = (err, sch', st')"
  shows "outcome P st st' err"
proof -
  have ce: "copy_events P" and gw: "\<And>e. P (GetWriter e)" and di: "\<And>p d. P (Discard p d)"
    using assms(1) by (simp_all add: body_events_def)
  show ?thesis
  proof (cases "source_Resume zf (SourceCheckpoint (cp st))")
    case None
    then show ?thesis using assms(2,3)
      by (auto simp: resumable_copy_def outcome_def extends_def split: if_splits)
  next
    case (Some offset)
    note sr = this
    show ?thesis
    proof (cases "align zf offset st")
      case None
      then show ?thesis using assms(2,3) sr
        by (auto simp: resumable_copy_def outcome_def extends_def split: if_splits)
    next
      case (Some a)
      obtain pos st1 where a: "a = (pos, st1)" by (cases a)
      note ax = align_extends [of P, OF di Some [unfolded a]]
      define st2 where "st2 = emit (GetWriter (cur_entry st1)) st1"
      have x2: "extends P st st2" "\<not> stopError st2"
        using ax gw assms(2) by (auto simp: st2_def extends_def emit_def)
      show ?thesis
      proof (cases "offset_err zf \<or> fails snk OpGetWriter (CanonicalPath (cur_entry st1))")
        case True
        then show ?thesis using assms(2,3) sr Some a ax
          by (auto simp: resumable_copy_def outcome_def extends_refl split: if_splits)
      next
        case False
        then have "copier_Do snk zf tot sch pos st2 = (err, sch', st')"
          using assms(3) sr Some a by (simp add: resumable_copy_def st2_def)
        from copier_Do_outcome [OF ce x2(2) this] x2(1) show ?thesis
          by (blast intro: outcome_extends)
      qed
    qed
  qed
qed

lemma full_copy_outcome:
  assumes "body_events P" "\<not> stopError st" "full_copy snk zf st = (err, st')"
  shows "outcome P st st' err"
  using assms
  by (auto simp: full_copy_def Let_def body_events_def copy_events_def outcome_def extends_def
      emit_def set_entry_def stream_end_def split: if_splits)

lemma do_symlink_outcome:
  assumes "body_events P" "\<not> stopError st" "do_symlink snk zf st = (err, st')"
  shows "outcome P st st' err"
  using assms
  by (auto simp: do_symlink_def Let_def body_events_def outcome_def extends_def emit_def
      split: if_splits)

lemma do_entry_outcome:
  assumes "body_events P" "\<not> stopError st" "do_entry snk tot i zf sch st = (err, sch', st')"
  shows "outcome P st st' err"
proof -
  define st2 where "st2 = (let st1 = st\<lparr>cp := (cp st)\<lparr>EntryIndex := i\<rparr>\<rparr>
     in if Entry (cp st1) = None then set_entry (zipFileEntry zf) st1 else st1)"
  have t2: "trace st2 = trace st" "\<not> stopError st2"
    using assms(2) by (simp_all add: st2_def Let_def set_entry_def)
  define body where "body = (case Kind (cur_entry st2) of
               EntryKindDir \<Rightarrow>
                 if fails snk OpMkdir (CanonicalPath (cur_entry st2)) then (Some ErrMkdir, sch, st2)
                 else (None, sch, emit (Mkdir (cur_entry st2)) st2)
             | EntryKindSymlink \<Rightarrow>
                 (case do_symlink snk zf st2 of (e, s) \<Rightarrow> (e, sch, s))
             | EntryKindFile \<Rightarrow>
                 if Method zf = Store \<or> Method zf = Deflate
                 then resumable_copy snk zf tot sch st2
                 else (case full_copy snk zf st2 of (e, s) \<Rightarrow> (e, sch, s)))"
  obtain e3 sch3 st3 where b: "body = (e3, sch3, st3)" by (cases body)
  have "outcome P st2 st3 e3"
  proof (cases "Kind (cur_entry st2)")
    case EntryKindDir
    then show ?thesis using b t2 assms(1)
      by (auto simp: body_def body_events_def outcome_def extends_def emit_def split: if_splits)
  next
    case EntryKindSymlink
    then show ?thesis using b t2 do_symlink_outcome [OF assms(1) t2(2)]
      by (auto simp: body_def split: prod.splits)
  next
    case EntryKindFile
    then show ?thesis
      using b t2 full_copy_outcome [OF assms(1) t2(2)] resumable_copy_outcome [OF assms(1) t2(2)]
      by (auto simp: body_def split: prod.splits if_splits)
  qed
  then have o: "outcome P st st3 e3" using t2 by (auto simp: outcome_def extends_def)
  have "do_entry snk tot i zf sch st =
          (case e3 of Some e \<Rightarrow> (Some e, sch3, st3)
           | None \<Rightarrow> (None, sch3, st3\<lparr>doneBytes := add64 (doneBytes st3) (int64 (UncompressedSize64 zf))\<rparr>))"
    using b unfolding do_entry_def body_def st2_def Let_def by simp
  with assms(3) o show ?thesis
    by (auto simp: outcome_def extends_def split: option.splits)
qed

lemma entry_loop_outcome:
  assumes "loop_events P"
  shows "\<not> stopError st \<Longrightarrow> entry_loop snk files tot i sch st = (err, st')
           \<Longrightarrow> outcome P st st' err"
proof (induction snk files tot i sch st rule: entry_loop.induct)
  case (1 snk files tot i sch st)
  have be: "body_events P" and dg: "P (Doing i)" using assms by (simp_all add: loop_events_def)
  show ?case
  proof (cases "i < int (length files)")
    case False
    then show ?thesis using 1(2,3) by (auto simp: entry_loop.simps outcome_def extends_def)
  next
    case True
    note lt = this
    define st0 where "st0 = emit (Doing i) st"
    have x0: "extends P st st0" "\<not> stopError st0"
      using dg 1(2) by (simp_all add: st0_def extends_def emit_def)
    show ?thesis
    proof (cases "i < 0")
      case True
      with 1(3) lt 1(2) have "err = Some PanicIndex" "st' = st0"
        by (simp_all add: entry_loop.simps [of snk files tot i] Let_def st0_def)
      with x0 show ?thesis by (simp add: outcome_def)
    next
      case False
      obtain e1 sch1 st1 where d: "do_entry snk tot i (files ! nat i) sch st0 = (e1, sch1, st1)"
        by (cases "do_entry snk tot i (files ! nat i) sch st0")
      note o1 = do_entry_outcome [OF be x0(2) d]
      show ?thesis
      proof (cases e1)
        case (Some e)
        then have "err = e1" "st' = st1"
          using 1(3) lt 1(2) False d by (simp_all add: entry_loop.simps [of snk files tot i] Let_def st0_def)
        with o1 x0 show ?thesis by (blast intro: outcome_extends)
      next
        case None
        define st2 where "st2 = st1\<lparr>cp := (cp st1)\<lparr>Entry := None, SourceCheckpoint := None\<rparr>\<rparr>"
        have run: "entry_loop snk files tot (i + 1) sch1 st2 = (err, st')"
          using 1(3) lt 1(2) False d None
          by (simp add: entry_loop.simps [of snk files tot i] Let_def st0_def st2_def)
        have o2: "outcome P st st2 None"
          using o1 x0 None by (auto simp: st2_def outcome_def extends_def)
        show ?thesis
        proof (cases "stopError st2")
          case True
          then have "err = None" "st' = st2" using run by (simp_all add: entry_loop.simps)
          with o2 show ?thesis by simp
        next
          case False
          note ns = this
          have "outcome P st2 st' err"
            using 1(1) [OF _ refl \<open>\<not> i < 0\<close> d [unfolded st0_def, symmetric] None refl] lt 1(2) ns run
            by (simp add: st2_def)
          moreover have "extends P st st2" using o2 ns by (simp add: outcome_def)
          ultimately show ?thesis by (blast intro: outcome_extends)
        qed
      qed
    qed
  qed
qed

lemma preallocate_all_trace:
  "preallocate_all snk files st = (err, st') \<Longrightarrow>
     \<exists>k. st' = st\<lparr>trace := trace st @ map Preallocate (take k (file_entries files))\<rparr> \<and>
         (err = None \<longrightarrow> k = length (file_entries files)) \<and>
         (err \<noteq> None \<longrightarrow> err = Some ErrPreallocate \<and> k < length (file_entries files))"
proof (induction files arbitrary: st)
  case Nil
  then show ?case by (simp add: file_entries_def)
next
  case (Cons zf files)
  show ?case
  proof (cases "Kind (zipFileEntry zf) = EntryKindFile")
    case False
    then show ?thesis using Cons.IH [of st] Cons.prems by (simp add: file_entries_def)
  next
    case True
    show ?thesis
    proof (cases "fails snk OpPreallocate (CanonicalPath (zipFileEntry zf))")
      case True
      with \<open>Kind (zipFileEntry zf) = EntryKindFile\<close> Cons.prems
      have "err = Some ErrPreallocate" "st' = st" by simp_all
      then show ?thesis
        using \<open>Kind (zipFileEntry zf) = EntryKindFile\<close>
        by (intro exI [of _ 0]) (simp add: file_entries_def)
    next
      case False
      with True Cons.prems
      have "preallocate_all snk files (emit (Preallocate (zipFileEntry zf)) st) = (err, st')"
        by simp
      from Cons.IH [OF this] obtain k where
        k: "st' = (emit (Preallocate (zipFileEntry zf)) st)\<lparr>trace := trace (emit (Preallocate (zipFileEntry zf)) st) @ map Preallocate (take k (file_entries files))\<rparr>"
          "err = None \<longrightarrow> k = length (file_entries files)"
          "err \<noteq> None \<longrightarrow> err = Some ErrPreallocate \<and> k < length (file_entries files)"
        by blast
      show ?thesis
        using k True by (intro exI [of _ "Suc k"]) (auto simp: file_entries_def emit_def)
    qed
  qed
qed

lemma Resume_unfold:
  "Resume ze checkpoint snk =
     (let files = zr ze;
          tot = snd (count_bytes files 0 (EntryIndex (initial_checkpoint checkpoint)) (0, 0));
          st0 = initial_state files checkpoint
      in case (if checkpoint = None then preallocate_all snk files st0 else (None, st0)) of
           (Some e, st1) \<Rightarrow> (Inl e, cp st1, trace st1)
         | (None, st1) \<Rightarrow>
             result_of files
               (entry_loop snk files tot (EntryIndex (initial_checkpoint checkpoint))
                  (saveConsumer ze) st1))"
  by (simp add: Resume_def initial_state_def initial_checkpoint_def result_of_def Let_def
      split: prod.splits option.splits)

text \<open>What a call of Resume is: the pre-allocations of a fresh run, then the loop.\<close>

lemma Resume_cases:
  assumes "Resume ze checkpoint snk = (r, cp', lg)"
  obtains (prealloc_failed) k where
      "checkpoint = None" "r = Inl ErrPreallocate" "k < length (file_entries (zr ze))"
      "lg = map Preallocate (take k (file_entries (zr ze)))"
      "cp' = initial_checkpoint None"
    | (looped) pre err st' where
      "pre = (if checkpoint = None then map Preallocate (file_entries (zr ze)) else [])"
      "entry_loop snk (zr ze)
         (snd (count_bytes (zr ze) 0 (EntryIndex (initial_checkpoint checkpoint)) (0, 0)))
         (EntryIndex (initial_checkpoint checkpoint)) (saveConsumer ze)
         ((initial_state (zr ze) checkpoint)\<lparr>trace := pre\<rparr>) = (err, st')"
      "(r, cp', lg) = result_of (zr ze) (err, st')"
proof (cases checkpoint)
  case (Some c)
  obtain err st' where
    "entry_loop snk (zr ze)
         (snd (count_bytes (zr ze) 0 (EntryIndex (initial_checkpoint checkpoint)) (0, 0)))
         (EntryIndex (initial_checkpoint checkpoint)) (saveConsumer ze)
         (initial_state (zr ze) checkpoint) = (err, st')"
    by (cases "entry_loop snk (zr ze)
         (snd (count_bytes (zr ze) 0 (EntryIndex (initial_checkpoint checkpoint)) (0, 0)))
         (EntryIndex (initial_checkpoint checkpoint)) (saveConsumer ze)
         (initial_state (zr ze) checkpoint)")
  moreover have "(initial_state (zr ze) checkpoint)\<lparr>trace := []\<rparr> = initial_state (zr ze) checkpoint"
    by (simp add: initial_state_def)
  ultimately show ?thesis
    using assms Some looped [of "[]" err st'] by (simp add: Resume_unfold Let_def)
next
  case None
  obtain e1 st1 where p: "preallocate_all snk (zr ze) (initial_state (zr ze) None) = (e1, st1)"
    by (cases "preallocate_all snk (zr ze) (initial_state (zr ze) None)")
  from preallocate_all_trace [OF p] obtain k where
    k: "st1 = (initial_state (zr ze) None)\<lparr>trace := map Preallocate (take k (file_entries (zr ze)))\<rparr>"
       "e1 = None \<longrightarrow> k = length (file_entries (zr ze))"
       "e1 \<noteq> None \<longrightarrow> e1 = Some ErrPreallocate \<and> k < length (file_entries (zr ze))"
    by (auto simp: initial_state_def)
  show ?thesis
  proof (cases e1)
    case (Some e)
    then show ?thesis
      using assms None p k prealloc_failed [of k]
      by (simp add: Resume_unfold Let_def initial_state_def)
  next
    case e1: None
    obtain err st' where
      l: "entry_loop snk (zr ze)
         (snd (count_bytes (zr ze) 0 (EntryIndex (initial_checkpoint checkpoint)) (0, 0)))
         (EntryIndex (initial_checkpoint checkpoint)) (saveConsumer ze) st1 = (err, st')"
      by (cases "entry_loop snk (zr ze)
         (snd (count_bytes (zr ze) 0 (EntryIndex (initial_checkpoint checkpoint)) (0, 0)))
         (EntryIndex (initial_checkpoint checkpoint)) (saveConsumer ze) st1")
    show ?thesis
      using assms None p k e1 l looped [of "map Preallocate (file_entries (zr ze))" err st']
      by (simp add: Resume_unfold Let_def)
  qed
qed

lemma outcome_extends_all:
  "outcome P st st' err \<Longrightarrow> (\<And>c. P (Save c AfterSaveStop)) \<Longrightarrow> extends P st st'"
  by (auto simp: outcome_def extends_def split: if_splits)

text \<open>The trace of a call: the pre-allocations, then what the loop did.\<close>

lemma Resume_trace:
  assumes "Resume ze checkpoint snk = (r, cp', lg)" "loop_events P"
  shows "\<exists>k evs. lg = (if checkpoint = None then map Preallocate (take k (file_entries (zr ze))) else []) @ evs \<and>
           (r \<noteq> Inl ErrPreallocate \<longrightarrow> k = length (file_entries (zr ze))) \<and>
           (if r = Inl ErrStop
            then \<exists>evs' c. evs = evs' @ [Save c AfterSaveStop] \<and> list_all P evs' \<and> Entry c \<noteq> None
            else list_all P evs \<and> (\<forall>es. r = Inr es \<longrightarrow> es = map zipFileEntry (zr ze)))"
  using assms(1)
proof (cases rule: Resume_cases)
  case (prealloc_failed k)
  then show ?thesis by (intro exI [of _ k] exI [of _ "[]"]) simp
next
  case (looped pre err st')
  have "outcome P ((initial_state (zr ze) checkpoint)\<lparr>trace := pre\<rparr>) st' err"
    by (rule entry_loop_outcome [OF assms(2) _ looped(2)]) (simp add: initial_state_def)
  then have o: "err \<noteq> Some ErrStop"
    "stopError st' \<Longrightarrow> err = None \<and> (\<exists>evs c. trace st' = pre @ evs @ [Save c AfterSaveStop] \<and> list_all P evs \<and> Entry c \<noteq> None)"
    "\<not> stopError st' \<Longrightarrow> \<exists>evs. trace st' = pre @ evs \<and> list_all P evs"
    by (auto simp: outcome_def extends_def)
  have ne: "r \<noteq> Inl ErrPreallocate \<or> True" by simp
  show ?thesis
  proof (cases "stopError st'")
    case True
    with o(2) obtain evs c where e: "err = None" "trace st' = pre @ evs @ [Save c AfterSaveStop]"
      "list_all P evs" "Entry c \<noteq> None" by blast
    with looped(3) True have "r = Inl ErrStop" "lg = pre @ evs @ [Save c AfterSaveStop]"
      by (simp_all add: result_of_def)
    with e looped(1) show ?thesis
      by (intro exI [of _ "length (file_entries (zr ze))"] exI [of _ "evs @ [Save c AfterSaveStop]"]) auto
  next
    case False
    with o(3) obtain evs where e: "trace st' = pre @ evs" "list_all P evs" by blast
    with looped(3) False o(1) have "r \<noteq> Inl ErrStop" "lg = pre @ evs"
      "\<forall>es. r = Inr es \<longrightarrow> es = map zipFileEntry (zr ze)"
      by (auto simp: result_of_def split: option.splits)
    with e looped(1) show ?thesis
      by (intro exI [of _ "length (file_entries (zr ze))"] exI [of _ evs]) auto
  qed
qed



section \<open>Iteration order and byte counts\<close>

lemma doings_append: "doings (xs @ ys) = doings xs @ doings ys"
  by (induction xs rule: doings.induct) simp_all

lemma doings_none: "list_all (\<lambda>ev. \<forall>i. ev \<noteq> Doing i) evs \<Longrightarrow> doings evs = []"
  by (induction evs rule: doings.induct) simp_all

lemma do_entry_doings:
  assumes "\<not> stopError st" "do_entry snk tot i zf sch st = (err, sch', st')"
  shows "doings (trace st') = doings (trace st)"
proof -
  have "body_events (\<lambda>ev. \<forall>i. ev \<noteq> Doing i)"
    by (simp add: body_events_def copy_events_def)
  from do_entry_outcome [OF this assms]
  show ?thesis
    by (auto simp: outcome_def extends_def doings_append doings_none split: if_splits)
qed

lemma entry_loop_doings:
  "\<not> stopError st \<Longrightarrow> entry_loop snk files tot i sch st = (err, st') \<Longrightarrow>
     \<exists>k. k \<le> max (i - 1) (int (length files) - 1) \<and>
         doings (trace st') = doings (trace st) @ [i..k] \<and>
         (err = None \<and> \<not> stopError st' \<longrightarrow> [i..k] = [i..int (length files) - 1])"
proof (induction snk files tot i sch st rule: entry_loop.induct)
  case (1 snk files tot i sch st)
  show ?case
  proof (cases "i < int (length files)")
    case False
    then have "err = None" "st' = st" using 1(3) by (simp_all add: entry_loop.simps)
    with False show ?thesis by (intro exI [of _ "i - 1"]) simp
  next
    case True
    note lt = this
    define st0 where "st0 = emit (Doing i) st"
    have d0: "doings (trace st0) = doings (trace st) @ [i]" "\<not> stopError st0"
      using 1(2) by (simp_all add: st0_def emit_def doings_append)
    have one: "[i..i] = [i]" by simp
    show ?thesis
    proof (cases "i < 0")
      case True
      with 1(3) lt 1(2) have "err = Some PanicIndex" "st' = st0"
        by (simp_all add: entry_loop.simps [of snk files tot i] Let_def st0_def)
      with d0 lt show ?thesis by (intro exI [of _ i]) (simp add: one)
    next
      case False
      obtain e1 sch1 st1 where d: "do_entry snk tot i (files ! nat i) sch st0 = (e1, sch1, st1)"
        by (cases "do_entry snk tot i (files ! nat i) sch st0")
      note d1 = do_entry_doings [OF d0(2) d]
      show ?thesis
      proof (cases e1)
        case (Some e)
        then have "err = e1" "st' = st1"
          using 1(3) lt 1(2) False d
          by (simp_all add: entry_loop.simps [of snk files tot i] Let_def st0_def)
        with d0 d1 lt Some show ?thesis by (intro exI [of _ i]) (simp add: one)
      next
        case None
        define st2 where "st2 = st1\<lparr>cp := (cp st1)\<lparr>Entry := None, SourceCheckpoint := None\<rparr>\<rparr>"
        have run: "entry_loop snk files tot (i + 1) sch1 st2 = (err, st')"
          using 1(3) lt 1(2) False d None
          by (simp add: entry_loop.simps [of snk files tot i] Let_def st0_def st2_def)
        have d2: "doings (trace st2) = doings (trace st) @ [i]"
          using d0 d1 by (simp add: st2_def)
        show ?thesis
        proof (cases "stopError st2")
          case True
          then have "err = None" "st' = st2" using run by (simp_all add: entry_loop.simps)
          with d2 lt True show ?thesis by (intro exI [of _ i]) (simp add: one)
        next
          case False
          from 1(1) [OF _ refl \<open>\<not> i < 0\<close> d [unfolded st0_def, symmetric] None refl]
            lt 1(2) False run
          obtain k where k: "k \<le> max (i + 1 - 1) (int (length files) - 1)"
            "doings (trace st') = doings (trace st2) @ [i + 1..k]"
            "err = None \<and> \<not> stopError st' \<longrightarrow> [i + 1..k] = [i + 1..int (length files) - 1]"
            by (auto simp: st2_def)
          have ik: "i \<le> k \<Longrightarrow> [i] @ [i + 1..k] = [i..k]" by (simp add: upto_rec1 [of i k])
          show ?thesis
          proof (cases "i \<le> k")
            case True
            with k d2 lt show ?thesis
              by (intro exI [of _ k]) (auto simp: upto_rec1 [of i])
          next
            case False
            with k d2 lt show ?thesis
              by (intro exI [of _ i]) (auto simp: one upto_rec1 [of i])
          qed
        qed
      qed
    qed
  qed
qed

lemma wrap64_range: "- (2 ^ 63) \<le> wrap64 x" "wrap64 x < 2 ^ 63"
  by (simp_all add: wrap64_def)

lemma wrap64_id: "- (2 ^ 63) \<le> x \<Longrightarrow> x < 2 ^ 63 \<Longrightarrow> wrap64 x = x"
  by (simp add: wrap64_def)

lemma wrap64_idem: "wrap64 (wrap64 x) = wrap64 x"
  by (rule wrap64_id [OF wrap64_range])

lemma wrap64_add_left: "wrap64 (wrap64 a + b) = wrap64 (a + b)"
proof -
  have "(wrap64 a + b + 2 ^ 63) mod 2 ^ 64 = (a + b + 2 ^ 63) mod 2 ^ 64"
    unfolding wrap64_def by (simp add: mod_simps algebra_simps)
  then show ?thesis by (simp add: wrap64_def [of "wrap64 a + b"] wrap64_def [of "a + b"])
qed

lemma count_bytes_wrapped:
  "wrap64 d = d \<Longrightarrow> wrap64 t = t \<Longrightarrow>
   count_bytes zfs i idx (d, t) =
     (wrap64 (d + sum_list (take (nat (idx - i)) (sizes zfs))), wrap64 (t + sum_list (sizes zfs)))"
proof (induction zfs arbitrary: i d t)
  case Nil
  then show ?case by (simp add: sizes_def)
next
  case (Cons zf zfs)
  let ?s = "int64 (UncompressedSize64 zf)"
  show ?case
  proof (cases "i < idx")
    case True
    then have n: "nat (idx - i) = Suc (nat (idx - (i + 1)))" by simp
    have "count_bytes (zf # zfs) i idx (d, t) = count_bytes zfs (i + 1) idx (add64 d ?s, add64 t ?s)"
      using True by (simp add: Let_def)
    also have "\<dots> = (wrap64 (add64 d ?s + sum_list (take (nat (idx - (i + 1))) (sizes zfs))),
                      wrap64 (add64 t ?s + sum_list (sizes zfs)))"
      by (rule Cons.IH) (simp_all add: add64_def wrap64_idem)
    finally show ?thesis
      by (simp add: n sizes_def add64_def wrap64_add_left add.assoc)
  next
    case False
    then have n: "nat (idx - i) = 0" "nat (idx - (i + 1)) = 0" by simp_all
    have "count_bytes (zf # zfs) i idx (d, t) = count_bytes zfs (i + 1) idx (d, add64 t ?s)"
      using False by (simp add: Let_def)
    also have "\<dots> = (wrap64 (d + sum_list (take (nat (idx - (i + 1))) (sizes zfs))),
                      wrap64 (add64 t ?s + sum_list (sizes zfs)))"
      by (rule Cons.IH) (simp_all add: add64_def wrap64_idem Cons.prems)
    finally show ?thesis
      by (simp add: n sizes_def add64_def wrap64_add_left add.assoc)
  qed
qed

lemma count_bytes_start:
  "count_bytes zfs 0 idx (0, 0) =
     (wrap64 (sum_list (take (nat idx) (sizes zfs))), wrap64 (sum_list (sizes zfs)))"
  using count_bytes_wrapped [of 0 0 zfs 0 idx] by (simp add: wrap64_def)

lemma usizes_nonneg: "0 \<le> sum_list (usizes zfs)"
  by (induction zfs) (simp_all add: usizes_def)

lemma usizes_take_le: "sum_list (take n (usizes zfs)) \<le> sum_list (usizes zfs)"
proof (induction zfs arbitrary: n)
  case Nil
  then show ?case by (simp add: usizes_def)
next
  case (Cons zf zfs)
  show ?case
  proof (cases n)
    case 0
    then show ?thesis using usizes_nonneg [of "zf # zfs"] by simp
  next
    case (Suc m)
    then show ?thesis using Cons.IH [of m] by (simp add: usizes_def)
  qed
qed

lemma sint_small: "uint (w :: 64 word) < 2 ^ 63 \<Longrightarrow> sint w = uint w"
proof -
  assume "uint w < 2 ^ 63"
  moreover have "- (2 ^ 63) \<le> (0::int)" by simp
  then have "- (2 ^ 63) \<le> uint w"
    using uint_ge_0 [of w] by (rule order_trans)
  ultimately have "signed_take_bit 63 (uint w) = uint w"
    by (intro signed_take_bit_int_eq_self) simp_all
  then show ?thesis by (simp add: sint_uint)
qed

lemma sizes_small: "sum_list (usizes zfs) < 2 ^ 63 \<Longrightarrow> sizes zfs = usizes zfs"
proof (induction zfs)
  case Nil
  then show ?case by (simp add: sizes_def usizes_def)
next
  case (Cons zf zfs)
  have "0 \<le> uint (UncompressedSize64 zf)" by simp
  moreover have "0 \<le> sum_list (usizes zfs)" by (rule usizes_nonneg)
  moreover have "uint (UncompressedSize64 zf) + sum_list (usizes zfs) < 2 ^ 63"
    using Cons.prems by (simp add: usizes_def)
  ultimately have "uint (UncompressedSize64 zf) < 2 ^ 63" "sum_list (usizes zfs) < 2 ^ 63"
    by linarith+
  then show ?case using Cons.IH by (simp add: sizes_def usizes_def int64_def sint_small)
qed



section \<open>What a copy writes\<close>

lemma appends_append:
  "appends path off evs1 = Some bs1 \<Longrightarrow> appends path (off + int (length bs1)) evs2 = Some bs2
     \<Longrightarrow> appends path off (evs1 @ evs2) = Some (bs1 @ bs2)"
proof (induction path off evs1 arbitrary: bs1 rule: appends.induct)
  case (2 path off p off' bs evs)
  from 2(2) obtain rest where r: "p = path" "off' = off"
    "appends path (off + int (length bs)) evs = Some rest" "bs1 = bs @ rest"
    by (auto split: if_splits)
  have "appends path (off + int (length bs)) (evs @ evs2) = Some (rest @ bs2)"
    using 2(1) [OF _ r(3)] r(1,2,4) 2(3) by (simp add: add.assoc)
  then show ?case using r by simp
qed simp_all

lemma stream_at_Nil: "stream_at zf pos []"
  by (simp add: stream_at_def)

lemma stream_at_take: "stream_at zf pos (take n (drop pos (payload zf)))"
  by (simp add: stream_at_def min_def)

lemma stream_at_append:
  assumes "stream_at zf pos bs1" "stream_at zf (pos + length bs1) bs2"
  shows "stream_at zf pos (bs1 @ bs2)"
proof -
  have "take (length bs1 + length bs2) (drop pos (payload zf)) =
          take (length bs1) (drop pos (payload zf)) @
          take (length bs2) (drop (length bs1) (drop pos (payload zf)))"
    by (rule take_add)
  also have "drop (length bs1) (drop pos (payload zf)) = drop (pos + length bs1) (payload zf)"
    by (simp add: add.commute)
  finally show ?thesis using assms by (simp add: stream_at_def)
qed

lemma copied_refl:
  "Entry (cp st) = Some e \<Longrightarrow> copied zf e pos st st []"
  by (simp add: copied_def stream_at_Nil)

lemma copied_trans:
  assumes "copied zf e pos st st1 bs1"
    "copied zf (e\<lparr>WriteOffset := WriteOffset e + int (length bs1)\<rparr>) (pos + length bs1) st1 st2 bs2"
  shows "copied zf e pos st st2 (bs1 @ bs2)"
proof -
  from assms(1) obtain evs1 where 1: "trace st1 = trace st @ evs1" "list_all copy_event evs1"
    "appends (CanonicalPath e) (WriteOffset e) evs1 = Some bs1"
    "stream_at zf pos bs1"
    "EntryIndex (cp st1) = EntryIndex (cp st)" "doneBytes st1 = doneBytes st"
    by (auto simp: copied_def)
  from assms(2) obtain evs2 where 2: "trace st2 = trace st1 @ evs2" "list_all copy_event evs2"
    "appends (CanonicalPath e) (WriteOffset e + int (length bs1)) evs2 = Some bs2"
    "stream_at zf (pos + length bs1) bs2"
    "Entry (cp st2) = Some (e\<lparr>WriteOffset := WriteOffset e + int (length bs1) + int (length bs2)\<rparr>)"
    "EntryIndex (cp st2) = EntryIndex (cp st1)" "doneBytes st2 = doneBytes st1"
    by (auto simp: copied_def)
  have "trace st2 = trace st @ (evs1 @ evs2)" "list_all copy_event (evs1 @ evs2)"
    using 1 2 by simp_all
  moreover have "appends (CanonicalPath e) (WriteOffset e) (evs1 @ evs2) = Some (bs1 @ bs2)"
    by (rule appends_append [OF 1(3) 2(3)])
  moreover have "stream_at zf pos (bs1 @ bs2)"
    by (rule stream_at_append [OF 1(4) 2(4)])
  ultimately show ?thesis using 1 2 unfolding copied_def
    by (intro conjI exI [of _ "evs1 @ evs2"]) (simp_all add: add.assoc)
qed

lemma copy_chunk_copied:
  assumes "Entry (cp st) = Some e" "copy_chunk snk tot chunk st = (err, st')"
    "chunk = take n (drop pos (payload zf))"
  shows "\<exists>bs. copied zf e pos st st' bs \<and> stopError st' = stopError st \<and>
           SourceCheckpoint (cp st') = SourceCheckpoint (cp st) \<and>
           (err = None \<longrightarrow> bs = chunk) \<and> (err \<noteq> None \<longrightarrow> bs = [] \<and> st' = st)"
proof (cases "fails snk OpWrite (CanonicalPath e)")
  case True
  then have "err = Some ErrWrite" "st' = st"
    using assms(1,2) by (simp_all add: copy_chunk_def cur_entry_def)
  then show ?thesis using copied_refl [OF assms(1)] by auto
next
  case False
  then have e: "err = None" and t: "trace st' = trace st @ [Write (CanonicalPath e) (WriteOffset e) chunk,
      ProgressEv (computeProgress tot (set_entry (e\<lparr>WriteOffset := WriteOffset e + int (length chunk)\<rparr>)
         (emit (Write (CanonicalPath e) (WriteOffset e) chunk) st)))]"
    and c: "cp st' = (cp st)\<lparr>Entry := Some (e\<lparr>WriteOffset := WriteOffset e + int (length chunk)\<rparr>)\<rparr>"
    and o: "stopError st' = stopError st" "doneBytes st' = doneBytes st"
    using assms(1,2) by (auto simp: copy_chunk_def cur_entry_def Let_def emit_def set_entry_def)
  have "stream_at zf pos chunk"
    unfolding assms(3) by (rule stream_at_take)
  then have "copied zf e pos st st' chunk"
    unfolding copied_def using t c o by simp
  then show ?thesis using e o c by auto
qed

lemma OnSave_copied:
  assumes "Entry (cp st) = Some e" "\<not> stopError st" "OnSave snk tot sc answer st = (err, st')"
  shows "copied zf e pos st st' [] \<and>
         (stopError st' \<longrightarrow> err = None \<and> SourceCheckpoint (cp st') = sc \<and> trace st' \<noteq> [] \<and>
             last (trace st') = Save (cp st') AfterSaveStop)"
  using assms
  by (auto simp: OnSave_def Let_def copied_def stream_at_Nil emit_def cur_entry_def
      split: if_splits option.splits)

lemma copier_step_copied:
  assumes "Entry (cp st) = Some e" "\<not> stopError st"
  shows "case copier_step snk zf tot nt pos st of
           Inl (err, st') \<Rightarrow>
             \<exists>bs. copied zf e pos st st' bs \<and>
               (stopError st' \<longrightarrow> err = None \<and> stopped_at zf (pos + length bs) st') \<and>
               (\<not> stopError st' \<and> err = None \<longrightarrow> bs = drop pos (payload zf))
         | Inr (pos', st') \<Rightarrow>
             \<exists>bs. copied zf e pos st st' bs \<and> pos' = pos + length bs \<and> \<not> stopError st'"
proof -
  define chunk where "chunk = take (fst nt) (drop pos (payload zf))"
  obtain e1 st1 where c: "copy_chunk snk tot chunk st = (e1, st1)"
    by (cases "copy_chunk snk tot chunk st")
  from copy_chunk_copied [OF assms(1) c chunk_def] obtain bs where
    b: "copied zf e pos st st1 bs" "stopError st1 = stopError st"
       "e1 = None \<longrightarrow> bs = chunk" "e1 \<noteq> None \<longrightarrow> bs = [] \<and> st1 = st"
    by blast
  have unfold: "copier_step snk zf tot nt pos st =
     (case e1 of Some e \<Rightarrow> Inl (Some e, st1)
      | None \<Rightarrow>
         if length (payload zf) \<le> pos + length chunk then Inl (stream_end zf, st1)
         else
           (case snd nt of
              NoSave \<Rightarrow> Inr (pos + length chunk, st1)
            | SavePoint answer \<Rightarrow>
                (case OnSave snk tot (source_Save zf (pos + length chunk)) answer st1 of
                   (Some e, st'') \<Rightarrow> Inl (Some e, st'')
                 | (None, st'') \<Rightarrow>
                     if stopError st'' then Inl (None, st'') else Inr (pos + length chunk, st''))))"
    using c unfolding copier_step_def Let_def chunk_def by simp
  show ?thesis
  proof (cases e1)
    case (Some x)
    then show ?thesis using unfold b assms(2) by auto
  next
    case None
    note e1 = this
    then have bs: "bs = chunk" using b by simp
    show ?thesis
    proof (cases "length (payload zf) \<le> pos + length chunk")
      case True
      then have "chunk = drop pos (payload zf)" by (simp add: chunk_def)
      then show ?thesis using unfold e1 True b bs assms(2) by auto
    next
      case False
      note notend = this
      show ?thesis
      proof (cases "snd nt")
        case NoSave
        then show ?thesis using unfold e1 notend b bs assms(2) by auto
      next
        case (SavePoint answer)
        obtain e2 st2 where s: "OnSave snk tot (source_Save zf (pos + length chunk)) answer st1 = (e2, st2)"
          by (cases "OnSave snk tot (source_Save zf (pos + length chunk)) answer st1")
        have en1: "Entry (cp st1) = Some (e\<lparr>WriteOffset := WriteOffset e + int (length bs)\<rparr>)"
          and ns1: "\<not> stopError st1"
          using b assms(2) by (simp_all add: copied_def)
        from OnSave_copied [OF en1 ns1 s, where zf = zf and pos = "pos + length bs"]
        have o: "copied zf (e\<lparr>WriteOffset := WriteOffset e + int (length bs)\<rparr>) (pos + length bs) st1 st2 []"
          "stopError st2 \<longrightarrow> e2 = None \<and> SourceCheckpoint (cp st2) = source_Save zf (pos + length chunk) \<and>
             trace st2 \<noteq> [] \<and> last (trace st2) = Save (cp st2) AfterSaveStop"
          by simp_all
        have c2: "copied zf e pos st st2 bs"
          using copied_trans [OF b(1) o(1)] by simp
        have "copier_step snk zf tot nt pos st =
                (case e2 of Some e \<Rightarrow> Inl (Some e, st2)
                 | None \<Rightarrow> if stopError st2 then Inl (None, st2) else Inr (pos + length chunk, st2))"
          using unfold e1 notend SavePoint s by simp
        then show ?thesis using c2 o(2) bs notend
          by (auto simp: stopped_at_def split: option.splits)
      qed
    qed
  qed
qed

lemma copier_Do_copied:
  "Entry (cp st) = Some e \<Longrightarrow> \<not> stopError st \<Longrightarrow>
   copier_Do snk zf tot sch pos st = (err, sch', st') \<Longrightarrow>
     \<exists>bs. copied zf e pos st st' bs \<and>
       (stopError st' \<longrightarrow> err = None \<and> stopped_at zf (pos + length bs) st') \<and>
       (\<not> stopError st' \<and> err = None \<longrightarrow> bs = drop pos (payload zf))"
proof (induction sch arbitrary: pos st e)
  case Nil
  obtain e1 st1 where c: "copy_chunk snk tot (drop pos (payload zf)) st = (e1, st1)"
    by (cases "copy_chunk snk tot (drop pos (payload zf)) st")
  have "drop pos (payload zf) = take (length (payload zf)) (drop pos (payload zf))" by simp
  from copy_chunk_copied [OF Nil(1) c this] obtain bs where
    b: "copied zf e pos st st1 bs" "stopError st1 = stopError st"
       "e1 = None \<longrightarrow> bs = drop pos (payload zf)" "e1 \<noteq> None \<longrightarrow> bs = [] \<and> st1 = st"
    by blast
  have "st' = st1" "err = None \<longrightarrow> e1 = None"
    using Nil(3) c by (auto split: option.splits)
  then show ?case using b Nil(2) by auto
next
  case (Cons nt sch)
  note step = copier_step_copied [OF Cons.prems(1,2), where snk = snk and zf = zf and tot = tot and nt = nt and pos = pos]
  show ?case
  proof (cases "copier_step snk zf tot nt pos st")
    case (Inl r)
    then show ?thesis using step Cons.prems(3) by (auto split: prod.splits)
  next
    case (Inr r)
    obtain pos' st1 where r: "r = (pos', st1)" by (cases r)
    from step Inr r obtain bs1 where
      1: "copied zf e pos st st1 bs1" "pos' = pos + length bs1" "\<not> stopError st1"
      by auto
    have en1: "Entry (cp st1) = Some (e\<lparr>WriteOffset := WriteOffset e + int (length bs1)\<rparr>)"
      using 1(1) by (simp add: copied_def)
    have run: "copier_Do snk zf tot sch pos' st1 = (err, sch', st')"
      using Cons.prems(3) Inr r by simp
    from Cons.IH [OF en1 1(3) run] obtain bs2 where
      2: "copied zf (e\<lparr>WriteOffset := WriteOffset e + int (length bs1)\<rparr>) pos' st1 st' bs2"
         "stopError st' \<longrightarrow> err = None \<and> stopped_at zf (pos' + length bs2) st'"
         "\<not> stopError st' \<and> err = None \<longrightarrow> bs2 = drop pos' (payload zf)"
      by blast
    have "copied zf e pos st st' (bs1 @ bs2)"
      using copied_trans [OF 1(1)] 2(1) 1(2) by simp
    moreover have "\<not> stopError st' \<and> err = None \<longrightarrow> bs1 @ bs2 = drop pos (payload zf)"
    proof
      assume "\<not> stopError st' \<and> err = None"
      then have "bs2 = drop (pos + length bs1) (payload zf)" using 2(3) 1(2) by simp
      moreover have "take (length bs1) (drop pos (payload zf)) = bs1"
        using 1(1) by (simp add: copied_def stream_at_def)
      ultimately show "bs1 @ bs2 = drop pos (payload zf)"
        by (metis append_take_drop_id drop_drop add.commute)
    qed
    ultimately show ?thesis using 2(2) 1(2) by (intro exI [of _ "bs1 @ bs2"]) (simp add: add.assoc)
  qed
qed

lemma copier_step_no_error:
  assumes "sink_ok snk" "\<not> corrupt zf" "snd nt \<noteq> SavePoint None"
    "copier_step snk zf tot nt pos st = Inl (err, st')"
  shows "err = None"
  using assms
  by (auto simp: copier_step_def copy_chunk_def OnSave_def Let_def sink_ok_def stream_end_def
      split: if_splits tick.splits option.splits prod.splits)

lemma copier_Do_no_error:
  "sink_ok snk \<Longrightarrow> \<not> corrupt zf \<Longrightarrow> sched_ok sch \<Longrightarrow>
   copier_Do snk zf tot sch pos st = (err, sch', st') \<Longrightarrow> err = None \<and> sched_ok sch'"
proof (induction sch arbitrary: pos st)
  case Nil
  then show ?case
    by (auto simp: copy_chunk_def Let_def sink_ok_def stream_end_def sched_ok_def split: if_splits)
next
  case (Cons nt sch)
  have ok: "snd nt \<noteq> SavePoint None" "sched_ok sch"
    using Cons.prems(3) by (simp_all add: sched_ok_def)
  show ?case
  proof (cases "copier_step snk zf tot nt pos st")
    case (Inl r)
    then show ?thesis
      using Cons.prems(4) ok copier_step_no_error [OF Cons.prems(1,2) ok(1), of tot pos st "fst r" "snd r"]
      by (auto split: prod.splits)
  next
    case (Inr r)
    then show ?thesis using Cons.prems Cons.IH [OF Cons.prems(1,2) ok(2)]
      by (auto split: prod.splits)
  qed
qed

lemma source_Resume_range:
  "source_Resume zf c = Some p \<Longrightarrow> 0 \<le> p \<and> p \<le> int (length (payload zf))"
  by (auto simp: source_Resume_def resumable_at_def split: option.splits if_splits)

lemma do_entry_resumable:
  assumes "Entry (cp st) = Some e" "Kind e = EntryKindFile" "Method zf = Store \<or> Method zf = Deflate"
  shows "do_entry snk tot i zf sch st =
     (case resumable_copy snk zf tot sch (st\<lparr>cp := (cp st)\<lparr>EntryIndex := i\<rparr>\<rparr>) of
        (Some er, sch', st3) \<Rightarrow> (Some er, sch', st3)
      | (None, sch', st3) \<Rightarrow>
          (None, sch', st3\<lparr>doneBytes := add64 (doneBytes st3) (int64 (UncompressedSize64 zf))\<rparr>))"
  using assms by (auto simp: do_entry_def Let_def cur_entry_def split: prod.splits option.splits)

text \<open>
  What the resumable copy of an entry does once the Source is resumed at offset \<open>p\<close>
  and aligned to offset \<open>pos\<close>, \<open>pre\<close> being the events of the alignment.
\<close>

lemma resumable_copy_aligned:
  assumes "Entry (cp st) = Some e" "\<not> stopError st" "\<not> offset_err zf"
    "source_Resume zf (SourceCheckpoint (cp st)) = Some p"
    "align zf p st = Some (pos, st1)" "trace st1 = trace st @ pre"
    "\<not> fails snk OpGetWriter (CanonicalPath e)"
    "resumable_copy snk zf tot sch st = (err, sch', st')"
  shows "\<exists>evs bs. trace st' = trace st @ pre @ GetWriter e # evs \<and> list_all copy_event evs \<and>
           appends (CanonicalPath e) (WriteOffset e) evs = Some bs \<and> stream_at zf pos bs \<and>
           Entry (cp st') = Some (e\<lparr>WriteOffset := WriteOffset e + int (length bs)\<rparr>) \<and>
           EntryIndex (cp st') = EntryIndex (cp st) \<and>
           (stopError st' \<longrightarrow> err = None \<and> stopped_at zf (pos + length bs) st') \<and>
           (\<not> stopError st' \<and> err = None \<longrightarrow> bs = drop pos (payload zf)) \<and>
           (sink_ok snk \<and> \<not> corrupt zf \<and> sched_ok sch \<longrightarrow> err = None \<and> sched_ok sch')"
proof -
  have a: "cp st1 = cp st" "stopError st1 = stopError st"
    using align_extends [of "\<lambda>ev. True", OF _ assms(5)] by simp_all
  define st2 where "st2 = emit (GetWriter e) st1"
  have 2: "Entry (cp st2) = Some e" "\<not> stopError st2" "trace st2 = trace st @ pre @ [GetWriter e]"
    "EntryIndex (cp st2) = EntryIndex (cp st)"
    using a assms(1,2,6) by (simp_all add: st2_def emit_def)
  have run: "copier_Do snk zf tot sch pos st2 = (err, sch', st')"
    using assms(3,4,5,7,8) a assms(1) by (simp add: resumable_copy_def st2_def cur_entry_def)
  from copier_Do_copied [OF 2(1,2) run] obtain bs where
    b: "copied zf e pos st2 st' bs"
       "stopError st' \<longrightarrow> err = None \<and> stopped_at zf (pos + length bs) st'"
       "\<not> stopError st' \<and> err = None \<longrightarrow> bs = drop pos (payload zf)"
    by blast
  from b(1) obtain evs where
    e: "trace st' = trace st2 @ evs" "list_all copy_event evs"
       "appends (CanonicalPath e) (WriteOffset e) evs = Some bs" "stream_at zf pos bs"
       "Entry (cp st') = Some (e\<lparr>WriteOffset := WriteOffset e + int (length bs)\<rparr>)"
       "EntryIndex (cp st') = EntryIndex (cp st2)"
    by (auto simp: copied_def)
  have "sink_ok snk \<and> \<not> corrupt zf \<and> sched_ok sch \<longrightarrow> err = None \<and> sched_ok sch'"
    using copier_Do_no_error [OF _ _ _ run] by blast
  with e b(2,3) 2(3,4) show ?thesis
    by (intro exI [of _ evs] exI [of _ bs]) simp
qed



section \<open>Extraction with interruptions\<close>

lemma write_at_append:
  assumes "0 \<le> off"
  shows "write_at (off + int (length b1)) b2 (write_at off b1 c) = write_at off (b1 @ b2) c"
proof (cases "b1 = [] \<or> b2 = []")
  case True
  then show ?thesis by (auto simp: write_at_def)
next
  case False
  define n where "n = nat off"
  define h where "h = take n (c @ replicate (n - length c) 0)"
  have lh: "length h = n" by (simp add: h_def min_def)
  have n: "nat (off + int (length b1)) = n + length b1" using assms by (simp add: n_def nat_add_distrib)
  have w1: "write_at off b1 c = h @ b1 @ drop (n + length b1) c"
    using False assms by (simp add: write_at_def n_def h_def)
  have l1: "n + length b1 \<le> length (write_at off b1 c)" by (simp add: w1 lh)
  have "take (n + length b1) (write_at off b1 c @ replicate (n + length b1 - length (write_at off b1 c)) 0)
          = h @ b1"
    using l1 by (simp add: w1 lh)
  moreover have "drop (n + length b1 + length b2) (write_at off b1 c) = drop (n + length b1 + length b2) c"
    by (simp add: w1 lh add.commute add.left_commute)
  ultimately have "write_at (off + int (length b1)) b2 (write_at off b1 c) =
      h @ b1 @ b2 @ drop (n + length b1 + length b2) c"
    using False assms by (simp add: write_at_def [of "off + int (length b1)"] n)
  moreover have "write_at off (b1 @ b2) c = h @ b1 @ b2 @ drop (n + length b1 + length b2) c"
    using False assms by (simp add: write_at_def n_def h_def add.assoc)
  ultimately show ?thesis by simp
qed

lemma store_of_append: "store_of f (xs @ ys) = store_of (store_of f xs) ys"
  by (simp add: store_of_def)

lemma store_of_Nil: "store_of f [] = f"
  by (simp add: store_of_def)

lemma store_of_Cons: "store_of f (ev # evs) = store_of (apply_event ev f) evs"
  by (simp add: store_of_def)

lemma store_of_appends:
  "list_all copy_event evs \<Longrightarrow> appends path off evs = Some bs \<Longrightarrow> 0 \<le> off \<Longrightarrow>
     store_of f evs = f(path := write_at off bs (f path))"
proof (induction path off evs arbitrary: bs f rule: appends.induct)
  case (1 path off)
  then show ?case by (simp add: store_of_Nil write_at_def)
next
  case (2 path off p off' b evs)
  from 2(3) obtain rest where r: "p = path" "off' = off"
    "appends path (off + int (length b)) evs = Some rest" "bs = b @ rest"
    by (auto split: if_splits)
  define g where "g = f(path := write_at off b (f path))"
  have "store_of g evs = g(path := write_at (off + int (length b)) rest (g path))"
    by (rule 2(1)) (use r 2(2,4) in simp_all)
  moreover have "store_of f (Write p off' b # evs) = store_of g evs"
    using r by (simp add: store_of_Cons g_def)
  moreover have "g(path := write_at (off + int (length b)) rest (g path)) =
      f(path := write_at off (b @ rest) (f path))"
    using 2(4) by (simp add: g_def write_at_append)
  ultimately show ?case using r by simp
qed (simp_all add: store_of_Cons)

lemma copier_step_never_stops:
  assumes "snd nt \<noteq> SavePoint (Some AfterSaveStop)" "\<not> stopError st"
  shows "case copier_step snk zf tot nt pos st of
           Inl (err, st') \<Rightarrow> \<not> stopError st'
         | Inr (pos', st') \<Rightarrow> \<not> stopError st'"
  using assms
  by (auto simp: copier_step_def copy_chunk_def OnSave_def Let_def emit_def set_entry_def
      split: if_splits tick.splits option.splits prod.splits save_action.splits)

lemma copier_Do_never_stops:
  "never_stops sch \<Longrightarrow> \<not> stopError st \<Longrightarrow>
   copier_Do snk zf tot sch pos st = (err, sch', st') \<Longrightarrow> \<not> stopError st' \<and> never_stops sch'"
proof (induction sch arbitrary: pos st)
  case Nil
  then show ?case
    by (auto simp: copy_chunk_def Let_def emit_def set_entry_def never_stops_def split: if_splits)
next
  case (Cons nt sch)
  have ok: "snd nt \<noteq> SavePoint (Some AfterSaveStop)" "never_stops sch"
    using Cons.prems(1) by (simp_all add: never_stops_def)
  note step = copier_step_never_stops [OF ok(1) Cons.prems(2), where snk = snk and zf = zf and tot = tot and pos = pos]
  show ?case
  proof (cases "copier_step snk zf tot nt pos st")
    case (Inl r)
    then show ?thesis using Cons.prems(3) ok step by (auto split: prod.splits)
  next
    case (Inr r)
    then show ?thesis using Cons.prems(3) step Cons.IH [OF ok(2)]
      by (auto split: prod.splits)
  qed
qed

lemma resumable_copy_cases:
  assumes "resumable_copy snk zf tot sch st = (err, sch', st')"
  obtains (failed) "err \<noteq> None" "sch' = sch" "stopError st' = stopError st"
  | (copy) p pos st1 where "\<not> offset_err zf"
      "source_Resume zf (SourceCheckpoint (cp st)) = Some p" "align zf p st = Some (pos, st1)"
      "\<not> fails snk OpGetWriter (CanonicalPath (cur_entry st1))"
      "copier_Do snk zf tot sch pos (emit (GetWriter (cur_entry st1)) st1) = (err, sch', st')"
proof (cases "source_Resume zf (SourceCheckpoint (cp st))")
  case None
  then show ?thesis using assms failed by (auto simp: resumable_copy_def split: if_splits)
next
  case (Some p)
  note sr = this
  show ?thesis
  proof (cases "align zf p st")
    case None
    then show ?thesis using assms failed sr by (auto simp: resumable_copy_def split: if_splits)
  next
    case (Some a)
    obtain pos st1 where a: "a = (pos, st1)" by (cases a)
    have "stopError st1 = stopError st"
      using align_extends [of "\<lambda>ev. True", OF _ Some [unfolded a]] by simp
    then show ?thesis
      using assms sr Some a failed copy [of p pos st1]
      by (auto simp: resumable_copy_def split: if_splits)
  qed
qed

lemma do_entry_never_stops:
  assumes "never_stops sch" "\<not> stopError st" "do_entry snk tot i zf sch st = (err, sch', st')"
  shows "\<not> stopError st' \<and> never_stops sch'"
proof -
  define st2 where "st2 = (let st1 = st\<lparr>cp := (cp st)\<lparr>EntryIndex := i\<rparr>\<rparr>
     in if Entry (cp st1) = None then set_entry (zipFileEntry zf) st1 else st1)"
  have t2: "\<not> stopError st2"
    using assms(2) by (simp add: st2_def Let_def set_entry_def)
  have rc: "\<not> stopError s \<and> never_stops sc"
    if r: "resumable_copy snk zf tot sch st2 = (e, sc, s)" for e sc s
    using r
  proof (cases rule: resumable_copy_cases)
    case failed
    then show ?thesis using t2 assms(1) by simp
  next
    case (copy p pos st1)
    have "\<not> stopError (emit (GetWriter (cur_entry st1)) st1)"
      using align_extends [of "\<lambda>ev. True", OF _ copy(3)] t2 by (simp add: emit_def)
    from copier_Do_never_stops [OF assms(1) this copy(5)] show ?thesis .
  qed
  show ?thesis
    using assms(1,3) t2 rc unfolding do_entry_def Let_def st2_def [unfolded Let_def, symmetric]
    by (auto simp: do_symlink_def full_copy_def emit_def set_entry_def Let_def
        split: entry_kind.splits if_splits option.splits prod.splits)
qed

lemma Store_neq_Deflate: "Store \<noteq> Deflate"
  by (simp add: Store_def Deflate_def)

lemma source_Save_Resume:
  assumes "pos \<le> length (payload zf)"
  shows "\<exists>p. source_Resume zf (source_Save zf pos) = Some p \<and> 0 \<le> p \<and> p \<le> int pos"
proof (cases "Method zf = Deflate")
  case False
  then show ?thesis using assms
    by (simp add: source_Save_def source_Resume_def resumable_at_def)
next
  case True
  show ?thesis
  proof (cases "filter (\<lambda>b. b \<le> pos) (blocks zf)")
    case Nil
    then show ?thesis using True by (simp add: source_Save_def source_Resume_def)
  next
    case (Cons b bs)
    define m where "m = Max (set (b # bs))"
    have "m \<in> set (b # bs)" unfolding m_def by (rule Max_in) simp_all
    then have "m \<in> set (filter (\<lambda>b. b \<le> pos) (blocks zf))" using Cons by simp
    then have m: "m \<in> set (blocks zf)" "m \<le> pos" by simp_all
    have "source_Save zf pos = Some \<lparr>Offset = int m\<rparr>"
      using True Cons by (simp add: source_Save_def m_def)
    then show ?thesis using m assms True
      by (simp add: source_Resume_def resumable_at_def)
  qed
qed

lemma store_of_irrelevant:
  "\<not> (\<exists>p off bs. ev = Write p off bs) \<Longrightarrow> store_of f (ev # evs) = store_of f evs"
  by (cases ev) (simp_all add: store_of_Cons)

text \<open>The copy of a member through its Source, from an aligned start.\<close>

lemma resumable_entry_store:
  assumes env: "sink_ok snk" "member_ok zf" "sched_ok sch"
    and st: "\<not> stopError st" "EntryIndex (cp st) = i"
      "Entry (cp st) = Some ((zipFileEntry zf)\<lparr>WriteOffset := w\<rparr>)"
      "source_Resume zf (SourceCheckpoint (cp st)) = Some p" "0 \<le> p" "p \<le> w"
      "w \<le> int (length (payload zf))"
    and meth: "Kind (zipFileEntry zf) = EntryKindFile" "Method zf = Store \<or> Method zf = Deflate"
    and run: "resumable_copy snk zf tot sch st = (err, sch', st')"
  shows "err = None \<and> sched_ok sch' \<and>
     (if stopError st'
      then \<exists>c. trace st' \<noteq> [] \<and> last (trace st') = Save c AfterSaveStop \<and> entry_cp zf i c \<and>
             entry_store zf (cp_offset c) (store_of S (trace st')) = entry_store zf w (store_of S (trace st))
      else store_of S (trace st') = entry_store zf w (store_of S (trace st)))"
proof -
  define e where "e = (zipFileEntry zf)\<lparr>WriteOffset := w\<rparr>"
  have e: "Entry (cp st) = Some e" "WriteOffset e = w" "CanonicalPath e = CanonicalPath (zipFileEntry zf)"
    "Kind e = EntryKindFile"
    using st(3) meth(1) by (simp_all add: e_def)
  have mo: "\<not> corrupt zf" "\<not> offset_err zf" "int (length (payload zf)) < 2 ^ 63"
    using env(2) by (simp_all add: member_ok_def)
  have gw: "\<not> fails snk OpGetWriter (CanonicalPath e)" using env(1) by (simp add: sink_ok_def)
  have "\<exists>pre. align zf p st = Some (nat w, st\<lparr>trace := trace st @ pre\<rparr>) \<and>
          (pre = [] \<or> (\<exists>d. pre = [Discard (CanonicalPath e) d]))"
  proof (cases "p < w")
    case False
    then have "p = w" using st(6) by simp
    then have "align zf p st = Some (nat w, st\<lparr>trace := trace st @ []\<rparr>)"
      using e by (simp add: align_def cur_entry_def)
    then show ?thesis by blast
  next
    case True
    have d: "sub64 w p = w - p"
      unfolding sub64_def using True st(5,7) mo(3) by (intro wrap64_id) simp_all
    have "align zf p st = Some (nat w, st\<lparr>trace := trace st @ [Discard (CanonicalPath e) (w - p)]\<rparr>)"
      using True e d st(5,7)
      by (simp add: align_def Let_def cur_entry_def DiscardByRead_def emit_def
          nat_add_distrib [symmetric] nat_le_iff)
    then show ?thesis by blast
  qed
  then obtain pre where al: "align zf p st = Some (nat w, st\<lparr>trace := trace st @ pre\<rparr>)"
    and pre: "pre = [] \<or> (\<exists>d. pre = [Discard (CanonicalPath e) d])"
    by blast
  from resumable_copy_aligned [OF e(1) st(1) mo(2) st(4) al _ gw run, of pre]
  obtain evs bs where
    r: "trace st' = trace st @ pre @ GetWriter e # evs" "list_all copy_event evs"
       "appends (CanonicalPath e) (WriteOffset e) evs = Some bs" "stream_at zf (nat w) bs"
       "Entry (cp st') = Some (e\<lparr>WriteOffset := WriteOffset e + int (length bs)\<rparr>)"
       "EntryIndex (cp st') = EntryIndex (cp st)"
       "stopError st' \<longrightarrow> err = None \<and> stopped_at zf (nat w + length bs) st'"
       "\<not> stopError st' \<and> err = None \<longrightarrow> bs = drop (nat w) (payload zf)"
       "err = None \<and> sched_ok sch'"
    using env(1,3) mo(1) by auto
  define f where "f = store_of S (trace st)"
  define path where "path = CanonicalPath (zipFileEntry zf)"
  have w0: "0 \<le> w" using st(5,6) by simp
  have "store_of S (trace st') = store_of f (pre @ GetWriter e # evs)"
    by (simp add: r(1) f_def store_of_append)
  also have "\<dots> = store_of f evs"
    using pre by (auto simp: store_of_Cons)
  also have "\<dots> = f(path := write_at w bs (f path))"
    using store_of_appends [OF r(2,3)] w0 e(2,3) by (simp add: path_def)
  finally have store: "store_of S (trace st') = f(path := write_at w bs (f path))" .
  have es: "entry_store zf w' g = g(path := write_at w' (drop (nat w') (payload zf)) (g path))" for w' g
    using meth by (simp add: entry_store_def path_def Let_def)
  show ?thesis
  proof (cases "stopError st'")
    case False
    then have "bs = drop (nat w) (payload zf)" using r(8,9) by simp
    with store False r(9) show ?thesis by (simp add: es f_def)
  next
    case True
    with r(7) have sa: "stopped_at zf (nat w + length bs) st'" by simp
    define c where "c = cp st'"
    define w' where "w' = w + int (length bs)"
    have nw: "nat w' = nat w + length bs" using w0 by (simp add: w'_def nat_add_distrib)
    have c: "Entry c = Some ((zipFileEntry zf)\<lparr>WriteOffset := w'\<rparr>)" "EntryIndex c = i"
      "SourceCheckpoint c = source_Save zf (nat w')" "nat w' < length (payload zf)"
      "trace st' \<noteq> []" "last (trace st') = Save c AfterSaveStop"
      using r(5,6) sa st(2) e(2) by (simp_all add: c_def e_def w'_def [symmetric] nw stopped_at_def)
    have ecp: "entry_cp zf i c" "cp_offset c = w'"
      using c meth w0 by (simp_all add: entry_cp_def cp_offset_def w'_def)
    have "take (length bs) (drop (nat w) (payload zf)) = bs" using r(4) by (simp add: stream_at_def)
    then have "bs @ drop (nat w') (payload zf) = drop (nat w) (payload zf)"
      by (metis nw append_take_drop_id drop_drop add.commute)
    then have "write_at w' (drop (nat w') (payload zf)) (write_at w bs (f path)) =
        write_at w (drop (nat w) (payload zf)) (f path)"
      using write_at_append [OF w0, of bs "drop (nat w') (payload zf)" "f path"]
      by (simp add: w'_def)
    then have "entry_store zf w' (store_of S (trace st')) = entry_store zf w f"
      by (simp add: es store)
    with True r(9) c(5,6) ecp show ?thesis by (auto simp: f_def)
  qed
qed

lemma do_entry_resumable_any:
  assumes "e = (case Entry (cp st) of None \<Rightarrow> zipFileEntry zf | Some e' \<Rightarrow> e')"
    "Kind e = EntryKindFile" "Method zf = Store \<or> Method zf = Deflate"
  shows "do_entry snk tot i zf sch st =
     (case resumable_copy snk zf tot sch (st\<lparr>cp := (cp st)\<lparr>EntryIndex := i, Entry := Some e\<rparr>\<rparr>) of
        (Some er, sch', st3) \<Rightarrow> (Some er, sch', st3)
      | (None, sch', st3) \<Rightarrow>
          (None, sch', st3\<lparr>doneBytes := add64 (doneBytes st3) (int64 (UncompressedSize64 zf))\<rparr>))"
proof (cases "Entry (cp st)")
  case None
  then show ?thesis using assms
    by (auto simp: do_entry_def Let_def cur_entry_def set_entry_def split: prod.splits option.splits)
next
  case (Some e')
  then have "Entry (cp st) = Some e" using assms(1) by simp
  then have eq: "(cp st)\<lparr>EntryIndex := i, Entry := Some e\<rparr> = (cp st)\<lparr>EntryIndex := i\<rparr>"
    by (cases "cp st") simp
  show ?thesis unfolding eq
    by (rule do_entry_resumable [OF \<open>Entry (cp st) = Some e\<close> assms(2,3)])
qed

text \<open>One turn of the loop, when nothing fails.\<close>

lemma do_entry_store:
  assumes env: "sink_ok snk" "member_ok zf" "sched_ok sch"
    and st: "\<not> stopError st"
      "(Entry (cp st) = None \<and> SourceCheckpoint (cp st) = None) \<or> entry_cp zf i (cp st)"
    and run: "do_entry snk tot i zf sch st = (err, sch', st')"
  shows "err = None \<and> sched_ok sch' \<and>
     (if stopError st'
      then \<exists>c. trace st' \<noteq> [] \<and> last (trace st') = Save c AfterSaveStop \<and> entry_cp zf i c \<and>
             entry_store zf (cp_offset c) (store_of S (trace st')) =
             entry_store zf (cp_offset (cp st)) (store_of S (trace st))
      else store_of S (trace st') = entry_store zf (cp_offset (cp st)) (store_of S (trace st)))"
proof -
  define e where "e = (case Entry (cp st) of None \<Rightarrow> zipFileEntry zf | Some e' \<Rightarrow> e')"
  define w where "w = cp_offset (cp st)"
  have mo: "\<not> corrupt zf" "\<not> offset_err zf" "\<not> open_err zf"
    using env(2) by (simp_all add: member_ok_def)
  have ew1: "e = (zipFileEntry zf)\<lparr>WriteOffset := w\<rparr>"
  proof (cases "Entry (cp st)")
    case None
    then have "e = zipFileEntry zf" "w = 0" by (simp_all add: e_def w_def cp_offset_def)
    then show ?thesis by (simp add: zipFileEntry_def)
  next
    case (Some e')
    then have "e = e'" "w = WriteOffset e'" "e' = (zipFileEntry zf)\<lparr>WriteOffset := WriteOffset e'\<rparr>"
      using st(2) by (simp_all add: e_def w_def cp_offset_def entry_cp_def)
    then show ?thesis by simp
  qed
  have "Kind ((zipFileEntry zf)\<lparr>WriteOffset := w\<rparr>) = Kind (zipFileEntry zf)" by simp
  with ew1 have ew: "e = (zipFileEntry zf)\<lparr>WriteOffset := w\<rparr>" "Kind e = Kind (zipFileEntry zf)"
    by simp_all
  show ?thesis
  proof (cases "Kind e = EntryKindFile \<and> (Method zf = Store \<or> Method zf = Deflate)")
    case True
    define st1 where "st1 = st\<lparr>cp := (cp st)\<lparr>EntryIndex := i, Entry := Some e\<rparr>\<rparr>"
    obtain e3 sch3 st3 where r: "resumable_copy snk zf tot sch st1 = (e3, sch3, st3)"
      by (cases "resumable_copy snk zf tot sch st1")
    have res: "trace st' = trace st3" "stopError st' = stopError st3" "err = e3" "sch' = sch3"
      using run r do_entry_resumable_any [OF e_def, of snk tot i sch] True
      by (auto simp: st1_def split: option.splits)
    have "\<exists>p. source_Resume zf (SourceCheckpoint (cp st1)) = Some p \<and> 0 \<le> p \<and> p \<le> w \<and>
            w \<le> int (length (payload zf))"
    proof (cases "Entry (cp st)")
      case None
      then show ?thesis using st(2)
        by (simp add: st1_def source_Resume_def w_def cp_offset_def entry_cp_def)
    next
      case (Some e')
      then have c: "0 \<le> w" "w \<le> int (length (payload zf))"
        "SourceCheckpoint (cp st) = source_Save zf (nat w)"
        using st(2) by (simp_all add: entry_cp_def w_def cp_offset_def)
      from source_Save_Resume [of "nat w" zf] c show ?thesis by (auto simp: st1_def)
    qed
    then obtain p where p: "source_Resume zf (SourceCheckpoint (cp st1)) = Some p" "0 \<le> p" "p \<le> w"
      "w \<le> int (length (payload zf))" by blast
    have 1: "\<not> stopError st1" "EntryIndex (cp st1) = i"
      "Entry (cp st1) = Some ((zipFileEntry zf)\<lparr>WriteOffset := w\<rparr>)" "trace st1 = trace st"
      using st(1) ew(1) by (simp_all add: st1_def)
    have k: "Kind (zipFileEntry zf) = EntryKindFile" using True ew(2) by simp
    from resumable_entry_store [OF env 1(1,2,3) p k _ r, of S] True
    have "err = None \<and> sched_ok sch' \<and>
     (if stopError st'
      then \<exists>c. trace st' \<noteq> [] \<and> last (trace st') = Save c AfterSaveStop \<and> entry_cp zf i c \<and>
             entry_store zf (cp_offset c) (store_of S (trace st')) =
             entry_store zf w (store_of S (trace st))
      else store_of S (trace st') = entry_store zf w (store_of S (trace st)))"
      unfolding res 1(4) [symmetric] by (simp split: if_splits)
    then show ?thesis unfolding w_def by blast
  next
    case False
    have "err = None \<and> sch' = sch \<and> \<not> stopError st' \<and>
          store_of S (trace st') = entry_store zf w (store_of S (trace st))"
    proof (cases "Entry (cp st)")
      case None
      then have "e = zipFileEntry zf" by (simp add: e_def)
      then show ?thesis
        using run None False st(1) env(1) mo
        by (cases "Kind (zipFileEntry zf)")
           (auto simp: do_entry_def Let_def cur_entry_def set_entry_def emit_def do_symlink_def
              full_copy_def sink_ok_def stream_end_def entry_store_def store_of_append store_of_Cons
              store_of_Nil zipFileEntry_def)
    next
      case (Some e')
      then show ?thesis using st(2) False by (auto simp: e_def entry_cp_def)
    qed
    then show ?thesis using env(3) by (simp add: w_def)
  qed
qed

lemma rest_store_step:
  "i < length files \<Longrightarrow>
     rest_store files i w f = rest_store files (Suc i) 0 (entry_store (files ! i) w f)"
  by (cases "Suc i < length files")
     (simp_all add: rest_store_def Cons_nth_drop_Suc [symmetric])

lemma rest_store_end: "length files \<le> i \<Longrightarrow> rest_store files i w f = f"
  by (simp add: rest_store_def)

text \<open>The loop, when nothing fails.\<close>

lemma entry_loop_store:
  "sink_ok snk \<Longrightarrow> archive_ok files \<Longrightarrow> sched_ok sch \<Longrightarrow> \<not> stopError st \<Longrightarrow> 0 \<le> i \<Longrightarrow>
     (i < int (length files) \<longrightarrow>
        (Entry (cp st) = None \<and> SourceCheckpoint (cp st) = None) \<or> entry_cp (files ! nat i) i (cp st)) \<Longrightarrow>
     entry_loop snk files tot i sch st = (err, st') \<Longrightarrow>
     err = None \<and> (never_stops sch \<longrightarrow> \<not> stopError st') \<and>
     (if stopError st'
      then \<exists>c. trace st' \<noteq> [] \<and> last (trace st') = Save c AfterSaveStop \<and> good_cp files c \<and>
             rest_store files (nat (EntryIndex c)) (cp_offset c) (store_of S (trace st')) =
             rest_store files (nat i) (cp_offset (cp st)) (store_of S (trace st))
      else store_of S (trace st') = rest_store files (nat i) (cp_offset (cp st)) (store_of S (trace st)))"
proof (induction snk files tot i sch st rule: entry_loop.induct)
  case (1 snk files tot i sch st)
  note env = \<open>sink_ok snk\<close> \<open>archive_ok files\<close>
  note sch = \<open>sched_ok sch\<close> and ns = \<open>\<not> stopError st\<close> and i0 = \<open>0 \<le> i\<close>
  note run = \<open>entry_loop snk files tot i sch st = (err, st')\<close>
  show ?case
  proof (cases "i < int (length files)")
    case False
    then have "err = None" "st' = st" using run by (simp_all add: entry_loop.simps)
    with False ns i0 show ?thesis by (simp add: rest_store_end)
  next
    case True
    note lt = this
    define zf where "zf = files ! nat i"
    have ni: "nat i < length files" using lt i0 by simp
    then have mo: "member_ok zf" using env(2) by (simp add: archive_ok_def zf_def list_all_length)
    define st0 where "st0 = emit (Doing i) st"
    have s0: "\<not> stopError st0" "cp st0 = cp st" "store_of S (trace st0) = store_of S (trace st)"
      using ns by (simp_all add: st0_def emit_def store_of_append store_of_Cons store_of_Nil)
    have rdy: "(Entry (cp st0) = None \<and> SourceCheckpoint (cp st0) = None) \<or> entry_cp zf i (cp st0)"
      using 1(7) lt s0(2) by (simp add: zf_def)
    obtain e1 sch1 st1 where d: "do_entry snk tot i zf sch st0 = (e1, sch1, st1)"
      by (cases "do_entry snk tot i zf sch st0")
    from do_entry_store [OF env(1) mo sch s0(1) rdy d, of S]
    have d1: "e1 = None" "sched_ok sch1"
      "stopError st1 \<Longrightarrow> \<exists>c. trace st1 \<noteq> [] \<and> last (trace st1) = Save c AfterSaveStop \<and> entry_cp zf i c \<and>
             entry_store zf (cp_offset c) (store_of S (trace st1)) =
             entry_store zf (cp_offset (cp st)) (store_of S (trace st))"
      "\<not> stopError st1 \<Longrightarrow> store_of S (trace st1) = entry_store zf (cp_offset (cp st)) (store_of S (trace st))"
      by (simp_all add: s0)
    define st2 where "st2 = st1\<lparr>cp := (cp st1)\<lparr>Entry := None, SourceCheckpoint := None\<rparr>\<rparr>"
    have run2: "entry_loop snk files tot (i + 1) sch1 st2 = (err, st')"
      using run lt ns i0 d d1(1)
      by (simp add: entry_loop.simps [of snk files tot i] Let_def st0_def st2_def zf_def)
    have s2: "trace st2 = trace st1" "stopError st2 = stopError st1" "cp_offset (cp st2) = 0"
      "Entry (cp st2) = None" "SourceCheckpoint (cp st2) = None"
      by (simp_all add: st2_def cp_offset_def)
    have nev: "never_stops sch \<Longrightarrow> \<not> stopError st1 \<and> never_stops sch1"
      using do_entry_never_stops [OF _ s0(1) d] by simp
    show ?thesis
    proof (cases "stopError st1")
      case True
      then have fin: "err = None" "st' = st2" using run2 s2 by (simp_all add: entry_loop.simps)
      from d1(3) [OF True] obtain c where
        c: "trace st1 \<noteq> []" "last (trace st1) = Save c AfterSaveStop" "entry_cp zf i c"
           "entry_store zf (cp_offset c) (store_of S (trace st1)) =
            entry_store zf (cp_offset (cp st)) (store_of S (trace st))"
        by blast
      have ci: "EntryIndex c = i" using c(3) by (simp add: entry_cp_def)
      have "good_cp files c" using c(3) lt i0 ci by (simp add: good_cp_def zf_def)
      moreover have "rest_store files (nat (EntryIndex c)) (cp_offset c) (store_of S (trace st1)) =
          rest_store files (nat i) (cp_offset (cp st)) (store_of S (trace st))"
        using ni c(4) by (simp add: rest_store_def ci zf_def)
      ultimately show ?thesis using fin s2 True c(1,2) nev by auto
    next
      case False
      have rdy2: "i + 1 < int (length files) \<longrightarrow>
          (Entry (cp st2) = None \<and> SourceCheckpoint (cp st2) = None) \<or>
          entry_cp (files ! nat (i + 1)) (i + 1) (cp st2)"
        using s2 by simp
      have ns2: "\<not> stopError st2" using False s2 by simp
      from 1(1) [OF _ refl _ d [unfolded st0_def zf_def, symmetric] d1(1) refl env
          d1(2) _ _ _ run2 [unfolded st2_def], folded st2_def] lt ns i0 ns2 rdy2
      have ih: "err = None" "never_stops sch1 \<longrightarrow> \<not> stopError st'"
        "if stopError st'
         then \<exists>c. trace st' \<noteq> [] \<and> last (trace st') = Save c AfterSaveStop \<and> good_cp files c \<and>
             rest_store files (nat (EntryIndex c)) (cp_offset c) (store_of S (trace st')) =
             rest_store files (nat (i + 1)) (cp_offset (cp st2)) (store_of S (trace st2))
         else store_of S (trace st') = rest_store files (nat (i + 1)) (cp_offset (cp st2)) (store_of S (trace st2))"
        by (simp_all split: if_splits)
      have "rest_store files (nat (i + 1)) (cp_offset (cp st2)) (store_of S (trace st2)) =
          rest_store files (nat i) (cp_offset (cp st)) (store_of S (trace st))"
        using rest_store_step [OF ni, of "cp_offset (cp st)" "store_of S (trace st)"]
          d1(4) [OF False] s2 i0
        by (simp add: zf_def nat_add_distrib)
      with ih nev show ?thesis by auto
    qed
  qed
qed

lemma last_offered_snoc: "last_offered (lg @ [Save c a]) = Some c"
  by (induction lg) simp_all

lemma last_offered_last: "lg \<noteq> [] \<Longrightarrow> last lg = Save c a \<Longrightarrow> last_offered lg = Some c"
  using last_offered_snoc [of "butlast lg" c a] by (metis append_butlast_last_id)

lemma preallocate_all_ok:
  "sink_ok snk \<Longrightarrow> fst (preallocate_all snk files st) = None"
  by (induction files arbitrary: st) (simp_all add: sink_ok_def Let_def)

lemma store_of_Preallocate: "store_of f (map Preallocate es) = f"
  by (induction es) (simp_all add: store_of_Nil store_of_Cons)

text \<open>A call of Resume, when nothing fails.\<close>

lemma Resume_store:
  assumes env: "sink_ok snk" "archive_ok (zr ze)" "sched_ok (saveConsumer ze)"
    and c: "checkpoint = None \<or> (\<exists>c. checkpoint = Some c \<and> good_cp (zr ze) c)"
    and run: "Resume ze checkpoint snk = (r, cp', lg)"
  shows "(never_stops (saveConsumer ze) \<longrightarrow> r \<noteq> Inl ErrStop) \<and>
     (if r = Inl ErrStop
      then \<exists>c. last_offered lg = Some c \<and> good_cp (zr ze) c \<and>
             rest_store (zr ze) (nat (EntryIndex c)) (cp_offset c) (store_of S lg) =
             rest_store (zr ze) (nat (EntryIndex (initial_checkpoint checkpoint)))
               (cp_offset (initial_checkpoint checkpoint)) S
      else r = Inr (map zipFileEntry (zr ze)) \<and>
           store_of S lg =
             rest_store (zr ze) (nat (EntryIndex (initial_checkpoint checkpoint)))
               (cp_offset (initial_checkpoint checkpoint)) S)"
proof -
  define files where "files = zr ze"
  define c0 where "c0 = initial_checkpoint checkpoint"
  define st0 where "st0 = initial_state files checkpoint"
  define tot where "tot = snd (count_bytes files 0 (EntryIndex c0) (0, 0))"
  have "\<exists>st1. (if checkpoint = None then preallocate_all snk files st0 else (None, st0)) = (None, st1) \<and>
          cp st1 = c0 \<and> \<not> stopError st1 \<and> store_of S (trace st1) = S"
  proof (cases checkpoint)
    case (Some c')
    then show ?thesis by (simp add: st0_def initial_state_def c0_def store_of_Nil)
  next
    case None
    obtain e1 st1 where p: "preallocate_all snk files st0 = (e1, st1)"
      by (cases "preallocate_all snk files st0")
    have "e1 = None" using preallocate_all_ok [OF env(1), of files st0] p by simp
    moreover from preallocate_all_trace [OF p] obtain k where
      "st1 = st0\<lparr>trace := trace st0 @ map Preallocate (take k (file_entries files))\<rparr>" by blast
    then have "cp st1 = c0" "\<not> stopError st1" "trace st1 = map Preallocate (take k (file_entries files))"
      by (simp_all add: st0_def initial_state_def c0_def del: take_map)
    then have "cp st1 = c0" "\<not> stopError st1" "store_of S (trace st1) = S"
      by (simp_all only: store_of_Preallocate not_False_eq_True)
    ultimately show ?thesis using None p by simp
  qed
  then obtain st1 where
    pre: "(if checkpoint = None then preallocate_all snk files st0 else (None, st0)) = (None, st1)"
    and s1: "cp st1 = c0" "\<not> stopError st1" "store_of S (trace st1) = S"
    by blast
  obtain err st' where l: "entry_loop snk files tot (EntryIndex c0) (saveConsumer ze) st1 = (err, st')"
    by (cases "entry_loop snk files tot (EntryIndex c0) (saveConsumer ze) st1")
  have res: "(r, cp', lg) = result_of files (err, st')"
    using run pre l unfolding Resume_unfold Let_def files_def [symmetric] c0_def [symmetric]
      st0_def [symmetric] tot_def [symmetric]
    by simp
  have i0: "0 \<le> EntryIndex c0" and rdy: "EntryIndex c0 < int (length files) \<longrightarrow>
        (Entry (cp st1) = None \<and> SourceCheckpoint (cp st1) = None) \<or>
        entry_cp (files ! nat (EntryIndex c0)) (EntryIndex c0) (cp st1)"
    using c s1(1) by (auto simp: c0_def initial_checkpoint_def good_cp_def files_def)
  from entry_loop_store [OF env(1) env(2) [folded files_def] env(3) s1(2) i0 rdy l, of S]
  have r: "err = None" "never_stops (saveConsumer ze) \<longrightarrow> \<not> stopError st'"
    "stopError st' \<Longrightarrow> \<exists>c. trace st' \<noteq> [] \<and> last (trace st') = Save c AfterSaveStop \<and> good_cp files c \<and>
             rest_store files (nat (EntryIndex c)) (cp_offset c) (store_of S (trace st')) =
             rest_store files (nat (EntryIndex c0)) (cp_offset c0) S"
    "\<not> stopError st' \<Longrightarrow> store_of S (trace st') = rest_store files (nat (EntryIndex c0)) (cp_offset c0) S"
    by (simp_all add: s1 split: if_splits)
  show ?thesis
  proof (cases "stopError st'")
    case True
    from r(3) [OF True] obtain c where
      c: "trace st' \<noteq> []" "last (trace st') = Save c AfterSaveStop" "good_cp files c"
        "rest_store files (nat (EntryIndex c)) (cp_offset c) (store_of S (trace st')) =
             rest_store files (nat (EntryIndex c0)) (cp_offset c0) S"
      by blast
    have "r = Inl ErrStop" "lg = trace st'" using res r(1) True by (simp_all add: result_of_def)
    with c last_offered_last [OF c(1,2)] r(2) True show ?thesis
      by (auto simp: files_def c0_def)
  next
    case False
    have "r = Inr (map zipFileEntry files)" "lg = trace st'"
      using res r(1) False by (simp_all add: result_of_def)
    with r(4) [OF False] show ?thesis by (simp add: files_def c0_def)
  qed
qed

lemma zr_SetSaveConsumer: "zr (SetSaveConsumer ze s) = zr ze" "saveConsumer (SetSaveConsumer ze s) = s"
  by (simp_all add: SetSaveConsumer_def)

lemma interrupted_store:
  assumes env: "sink_ok snk" "archive_ok (zr ze)" "sched_ok fin" "never_stops fin"
  shows "list_all sched_ok ss \<Longrightarrow>
     checkpoint = None \<or> (\<exists>c. checkpoint = Some c \<and> good_cp (zr ze) c) \<Longrightarrow>
     interrupted ze snk ss fin checkpoint = (r, lg) \<Longrightarrow>
     r = Inr (map zipFileEntry (zr ze)) \<and>
     store_of S lg =
       rest_store (zr ze) (nat (EntryIndex (initial_checkpoint checkpoint)))
         (cp_offset (initial_checkpoint checkpoint)) S"
proof (induction ss arbitrary: checkpoint r lg S)
  case Nil
  obtain r1 c1 lg1 where run: "Resume (SetSaveConsumer ze fin) checkpoint snk = (r1, c1, lg1)"
    by (cases "Resume (SetSaveConsumer ze fin) checkpoint snk")
  note R = Resume_store [OF env(1) _ _ _ run, of S, unfolded zr_SetSaveConsumer]
  from R [OF env(2,3) Nil(2)] env(4)
  have "r1 = Inr (map zipFileEntry (zr ze)) \<and>
        store_of S lg1 = rest_store (zr ze) (nat (EntryIndex (initial_checkpoint checkpoint)))
               (cp_offset (initial_checkpoint checkpoint)) S"
    by (simp split: if_splits)
  then show ?case using Nil(3) run by simp
next
  case (Cons s ss)
  obtain r1 c1 lg1 where run: "Resume (SetSaveConsumer ze s) checkpoint snk = (r1, c1, lg1)"
    by (cases "Resume (SetSaveConsumer ze s) checkpoint snk")
  have ok: "sched_ok s" "list_all sched_ok ss" using Cons.prems(1) by simp_all
  note R = Resume_store [OF env(1) _ _ _ run, of S, unfolded zr_SetSaveConsumer]
  from R [OF env(2) ok(1) Cons.prems(2)]
  have 1: "if r1 = Inl ErrStop
      then \<exists>c. last_offered lg1 = Some c \<and> good_cp (zr ze) c \<and>
             rest_store (zr ze) (nat (EntryIndex c)) (cp_offset c) (store_of S lg1) =
             rest_store (zr ze) (nat (EntryIndex (initial_checkpoint checkpoint)))
               (cp_offset (initial_checkpoint checkpoint)) S
      else r1 = Inr (map zipFileEntry (zr ze)) \<and>
           store_of S lg1 =
             rest_store (zr ze) (nat (EntryIndex (initial_checkpoint checkpoint)))
               (cp_offset (initial_checkpoint checkpoint)) S"
    by blast
  show ?case
  proof (cases "r1 = Inl ErrStop")
    case False
    then have "r = r1" "lg = lg1" using Cons.prems(3) run by simp_all
    with 1 False show ?thesis by simp
  next
    case True
    with 1 obtain c where c: "last_offered lg1 = Some c" "good_cp (zr ze) c"
      "rest_store (zr ze) (nat (EntryIndex c)) (cp_offset c) (store_of S lg1) =
             rest_store (zr ze) (nat (EntryIndex (initial_checkpoint checkpoint)))
               (cp_offset (initial_checkpoint checkpoint)) S"
      by auto
    obtain r2 lg2 where rest: "interrupted ze snk ss fin (Some c) = (r2, lg2)"
      by (cases "interrupted ze snk ss fin (Some c)")
    have "r = r2" "lg = lg1 @ lg2" using Cons.prems(3) run True c(1) rest by simp_all
    moreover from Cons.IH [OF ok(2) _ rest, of "store_of S lg1"] c(2)
    have "r2 = Inr (map zipFileEntry (zr ze)) \<and>
          store_of (store_of S lg1) lg2 = rest_store (zr ze) (nat (EntryIndex c)) (cp_offset c) (store_of S lg1)"
      by (simp add: initial_checkpoint_def)
    ultimately show ?thesis using c(3) by (simp add: store_of_append)
  qed
qed



section \<open>Progress values\<close>

















section \<open>Properties\<close>

subsection \<open>The example runs\<close>

lemma ex_stop_run:
  "Resume (ex_ze ex_stop) None ok_sink =
  (Inl ErrStop,
   \<lparr>EntryIndex = 2, Progress = Ratio 6 7, Entry = None, SourceCheckpoint = None\<rparr>,
   [Preallocate (zipFileEntry ex_a), Preallocate (zipFileEntry ex_c), Doing 0,
    GetWriter (zipFileEntry ex_a), Write ''a.txt'' 0 [1, 2, 3], ProgressEv (Ratio 3 7),
    Doing 1, Mkdir (zipFileEntry ex_b), Doing 2, GetWriter (zipFileEntry ex_c),
    Write ''c.bin'' 0 [4, 5, 6], ProgressEv (Ratio 6 7), Sync ''c.bin'',
    Save ex_saved AfterSaveStop])"
  by code_simp

lemma ex_resumed_run:
  "Resume (ex_ze []) (Some ex_saved) ok_sink =
  (Inr (map zipFileEntry [ex_a, ex_b, ex_c]),
   \<lparr>EntryIndex = 2, Progress = Ratio 6 7, Entry = None, SourceCheckpoint = None\<rparr>,
   [Doing 2, Discard ''c.bin'' 1, GetWriter ((zipFileEntry ex_c)\<lparr>WriteOffset := 3\<rparr>),
    Write ''c.bin'' 3 [7], ProgressEv (Ratio 7 7)])"
  by code_simp

lemma ex_zr: "zr (ex_ze sch) = [ex_a, ex_b, ex_c]"
  by (simp add: ex_ze_def)

lemma ex_file_entries: "file_entries (zr (ex_ze sch)) = [zipFileEntry ex_a, zipFileEntry ex_c]"
  by (simp add: file_entries_def ex_ze_def) code_simp

subsection \<open>Pre-allocation\<close>

text \<open>
  C5. Pre-allocation occurs exactly once. A call of \<^verbatim>\<open>Resume\<close> with a checkpoint never
  calls \<^verbatim>\<open>Preallocate\<close>. A call with no checkpoint starts with the pre-allocations:
  its trace is one \<^verbatim>\<open>Preallocate\<close> for each file-kind entry of the archive, in archive
  order, followed by a rest with no \<^verbatim>\<open>Preallocate\<close> in it, so every write through a
  sink writer comes after all of them. The pre-allocations stop short only when one of
  them fails, and that error is then the result of the call.
\<close>

theorem preallocate_exactly_once:
  assumes "Resume ze checkpoint snk = (r, cp', lg)"
  shows "(checkpoint \<noteq> None \<longrightarrow> (\<forall>e. Preallocate e \<notin> set lg)) \<and>
         (checkpoint = None \<longrightarrow>
            (\<exists>k rest. lg = map Preallocate (take k (file_entries (zr ze))) @ rest \<and>
               (\<forall>e. Preallocate e \<notin> set rest) \<and>
               (r \<noteq> Inl ErrPreallocate \<longrightarrow> k = length (file_entries (zr ze)))))"
proof -
  define P where "P = (\<lambda>ev. \<forall>e. ev \<noteq> Preallocate e)"
  have "loop_events P"
    by (simp add: loop_events_def body_events_def copy_events_def P_def)
  from Resume_trace [OF assms this] obtain k evs where
    l: "lg = (if checkpoint = None then map Preallocate (take k (file_entries (zr ze))) else []) @ evs"
      "r \<noteq> Inl ErrPreallocate \<longrightarrow> k = length (file_entries (zr ze))"
    and e: "if r = Inl ErrStop
            then \<exists>evs' c. evs = evs' @ [Save c AfterSaveStop] \<and> list_all P evs' \<and> Entry c \<noteq> None
            else list_all P evs \<and> (\<forall>es. r = Inr es \<longrightarrow> es = map zipFileEntry (zr ze))"
    by blast
  have "list_all P evs" using e by (auto simp: P_def split: if_splits)
  then have "\<forall>e. Preallocate e \<notin> set evs" by (auto simp: P_def list_all_iff)
  with l show ?thesis by auto
qed

theorem preallocate_exactly_once_witness:
  "(\<forall>e. Preallocate e \<notin> set (snd (snd (Resume (ex_ze []) (Some ex_saved) ok_sink)))) \<and>
   (\<exists>k rest. snd (snd (Resume (ex_ze ex_stop) None ok_sink)) =
        map Preallocate (take k [zipFileEntry ex_a, zipFileEntry ex_c]) @ rest \<and>
        (\<forall>e. Preallocate e \<notin> set rest) \<and> k = 2)"
  using preallocate_exactly_once [OF ex_resumed_run] preallocate_exactly_once [OF ex_stop_run]
  by (simp add: ex_file_entries ex_resumed_run ex_stop_run)

subsection \<open>The stop sentinel\<close>

text \<open>
  C6. Stop is a sentinel, not a success or an error. When the save consumer answers a
  save with the stop action, \<^verbatim>\<open>Resume\<close> returns no result and the error
  \<^verbatim>\<open>ErrStop\<close>, and that save is the last thing the call did. \<^verbatim>\<open>ErrStop\<close> is returned
  only then. A result is returned only when no save was answered with a stop (and no
  error occurred), and it lists the entries of all members of the archive in index order.
\<close>

theorem stop_is_a_sentinel:
  assumes "Resume ze checkpoint snk = (r, cp', lg)"
  shows "(\<forall>c. Save c AfterSaveStop \<in> set lg \<longrightarrow> r = Inl ErrStop \<and> last lg = Save c AfterSaveStop) \<and>
         (r = Inl ErrStop \<longrightarrow> (\<exists>c. Save c AfterSaveStop \<in> set lg)) \<and>
         (\<forall>es. r = Inr es \<longrightarrow>
            es = map zipFileEntry (zr ze) \<and> (\<forall>c. Save c AfterSaveStop \<notin> set lg))"
proof -
  define P where "P = (\<lambda>ev. \<forall>c. ev \<noteq> Save c AfterSaveStop)"
  have "loop_events P"
    by (simp add: loop_events_def body_events_def copy_events_def P_def)
  from Resume_trace [OF assms this] obtain k evs where
    l: "lg = (if checkpoint = None then map Preallocate (take k (file_entries (zr ze))) else []) @ evs"
    and e: "if r = Inl ErrStop
            then \<exists>evs' c. evs = evs' @ [Save c AfterSaveStop] \<and> list_all P evs' \<and> Entry c \<noteq> None
            else list_all P evs \<and> (\<forall>es. r = Inr es \<longrightarrow> es = map zipFileEntry (zr ze))"
    by blast
  show ?thesis
  proof (cases "r = Inl ErrStop")
    case True
    with e obtain evs' c where "evs = evs' @ [Save c AfterSaveStop]" "list_all P evs'" by auto
    with l True show ?thesis by (auto simp: P_def list_all_iff)
  next
    case False
    with e have "list_all P evs" "\<forall>es. r = Inr es \<longrightarrow> es = map zipFileEntry (zr ze)" by auto
    with l False show ?thesis by (auto simp: P_def list_all_iff)
  qed
qed

theorem stop_is_a_sentinel_witness:
  "fst (Resume (ex_ze ex_stop) None ok_sink) = Inl ErrStop \<and>
   last (snd (snd (Resume (ex_ze ex_stop) None ok_sink))) = Save ex_saved AfterSaveStop \<and>
   fst (Resume (ex_ze []) (Some ex_saved) ok_sink) = Inr (map zipFileEntry [ex_a, ex_b, ex_c]) \<and>
   (\<forall>c. Save c AfterSaveStop \<notin> set (snd (snd (Resume (ex_ze []) (Some ex_saved) ok_sink))))"
  using stop_is_a_sentinel [OF ex_resumed_run] stop_is_a_sentinel [OF ex_stop_run]
  by (simp add: ex_resumed_run ex_stop_run ex_zr)

subsection \<open>The entry of a checkpoint\<close>

text \<open>
  C9, as amended. Every checkpoint the engine offers to the save consumer has its entry:
  a null entry is never seen in an offered checkpoint.
\<close>

theorem offered_checkpoint_has_entry:
  assumes "Resume ze checkpoint snk = (r, cp', lg)" "Save c a \<in> set lg"
  shows "Entry c \<noteq> None"
proof -
  define P where "P = (\<lambda>ev. \<forall>c a. ev = Save c a \<longrightarrow> Entry c \<noteq> None)"
  have "loop_events P"
    by (simp add: loop_events_def body_events_def copy_events_def P_def)
  from Resume_trace [OF assms(1) this] obtain k evs where
    l: "lg = (if checkpoint = None then map Preallocate (take k (file_entries (zr ze))) else []) @ evs"
    and e: "if r = Inl ErrStop
            then \<exists>evs' c. evs = evs' @ [Save c AfterSaveStop] \<and> list_all P evs' \<and> Entry c \<noteq> None
            else list_all P evs \<and> (\<forall>es. r = Inr es \<longrightarrow> es = map zipFileEntry (zr ze))"
    by blast
  have "list_all P evs" using e by (auto simp: P_def split: if_splits)
  with l assms(2) show ?thesis by (auto simp: P_def list_all_iff split: if_splits)
qed

theorem offered_checkpoint_has_entry_witness:
  "Save ex_saved AfterSaveStop \<in> set (snd (snd (Resume (ex_ze ex_stop) None ok_sink))) \<and>
   Entry ex_saved \<noteq> None"
  using offered_checkpoint_has_entry [OF ex_stop_run, of ex_saved AfterSaveStop]
  by (simp add: ex_stop_run)

text \<open>
  C9 as stated fails for the checkpoint object left by a stopped call. In the example
  the run is stopped three bytes into the four bytes of the member at index 2; the call
  returns \<^verbatim>\<open>ErrStop\<close> and leaves the object with a null entry and entry index 2,
  the partially extracted member.
\<close>

theorem null_entry_after_stop_counterexample:
  "fst (Resume (ex_ze ex_stop) None ok_sink) = Inl ErrStop \<and>
   Entry (fst (snd (Resume (ex_ze ex_stop) None ok_sink))) = None \<and>
   EntryIndex (fst (snd (Resume (ex_ze ex_stop) None ok_sink))) = 2 \<and>
   Write ''c.bin'' 0 [4, 5, 6] \<in> set (snd (snd (Resume (ex_ze ex_stop) None ok_sink))) \<and>
   payload ([ex_a, ex_b, ex_c] ! 2) = [4, 5, 6, 7]"
  by (simp add: ex_stop_run ex_c_def)

subsection \<open>Iteration order\<close>

text \<open>
  C8. Iteration order and progress baseline. With \<open>idx\<close> the checkpoint's entry index
  (0 for a fresh run), the entries the loop of \<^verbatim>\<open>Resume\<close> takes up are those at
  \<open>idx, idx + 1, \<dots>\<close> in ascending order with none skipped, up to some index
  below the number of entries, and up to the last index when the call returns a result.
  \<^verbatim>\<open>doneBytes\<close> starts as the sum of the uncompressed sizes of the entries before
  \<open>idx\<close>, in \<^verbatim>\<open>int64\<close> arithmetic; when the sizes of the archive add up to less than
  \<open>2^63\<close> that is their sum as numbers.
\<close>

theorem iteration_order_and_baseline:
  assumes "Resume ze checkpoint snk = (r, cp', lg)"
    and "idx = (case checkpoint of None \<Rightarrow> 0 | Some c \<Rightarrow> EntryIndex c)"
  shows "(\<exists>k. k \<le> max (idx - 1) (int (length (zr ze)) - 1) \<and> doings lg = [idx..k]) \<and>
         (\<forall>es. r = Inr es \<longrightarrow> doings lg = [idx..int (length (zr ze)) - 1]) \<and>
         fst (count_bytes (zr ze) 0 idx (0, 0)) = wrap64 (sum_list (take (nat idx) (sizes (zr ze)))) \<and>
         (sum_list (usizes (zr ze)) < 2 ^ 63 \<longrightarrow>
            fst (count_bytes (zr ze) 0 idx (0, 0)) = sum_list (take (nat idx) (usizes (zr ze))))"
proof -
  have idx: "idx = EntryIndex (initial_checkpoint checkpoint)"
    using assms(2) by (simp add: initial_checkpoint_def split: option.splits)
  have pre: "doings (map Preallocate es) = []" for es
    by (induction es) simp_all
  have order: "(\<exists>k. k \<le> max (idx - 1) (int (length (zr ze)) - 1) \<and> doings lg = [idx..k]) \<and>
         (\<forall>es. r = Inr es \<longrightarrow> doings lg = [idx..int (length (zr ze)) - 1])"
    using assms(1)
  proof (cases rule: Resume_cases)
    case (prealloc_failed k)
    then show ?thesis by (auto simp: pre intro!: exI [of _ "idx - 1"])
  next
    case (looped pre' err st')
    have "\<not> stopError ((initial_state (zr ze) checkpoint)\<lparr>trace := pre'\<rparr>)"
      by (simp add: initial_state_def)
    from entry_loop_doings [OF this looped(2)] obtain k where
      k: "k \<le> max (idx - 1) (int (length (zr ze)) - 1)"
         "doings (trace st') = doings pre' @ [idx..k]"
         "err = None \<and> \<not> stopError st' \<longrightarrow> [idx..k] = [idx..int (length (zr ze)) - 1]"
      by (auto simp: idx)
    have "doings pre' = []" using looped(1) by (simp add: pre)
    moreover have "lg = trace st'" "\<forall>es. r = Inr es \<longrightarrow> err = None \<and> \<not> stopError st'"
      using looped(3) by (auto simp: result_of_def split: option.splits if_splits)
    ultimately show ?thesis using k by auto
  qed
  have base: "fst (count_bytes (zr ze) 0 idx (0, 0)) = wrap64 (sum_list (take (nat idx) (sizes (zr ze))))"
    by (simp add: count_bytes_start)
  have "fst (count_bytes (zr ze) 0 idx (0, 0)) = sum_list (take (nat idx) (usizes (zr ze)))"
    if small: "sum_list (usizes (zr ze)) < 2 ^ 63"
  proof -
    have "sum_list (take (nat idx) (usizes (zr ze))) < 2 ^ 63"
      using usizes_take_le [of "nat idx" "zr ze"] small by linarith
    moreover have "0 \<le> sum_list (take (nat idx) (usizes (zr ze)))"
      using usizes_nonneg [of "take (nat idx) (zr ze)"] by (simp add: usizes_def take_map)
    ultimately show ?thesis
      using base sizes_small [OF small] by (simp add: wrap64_id)
  qed
  with order base show ?thesis by blast
qed

theorem iteration_order_and_baseline_witness:
  "doings (snd (snd (Resume (ex_ze ex_stop) None ok_sink))) = [0, 1, 2] \<and>
   doings (snd (snd (Resume (ex_ze []) (Some ex_saved) ok_sink))) = [2] \<and>
   fst (count_bytes (zr (ex_ze [])) 0 2 (0, 0)) = 3"
proof -
  have s: "sum_list (usizes (zr (ex_ze []))) < 2 ^ 63"
    by (simp add: usizes_def ex_zr ex_a_def ex_b_def ex_c_def)
  have u: "sum_list (take (nat 2) (usizes (zr (ex_ze [])))) = 3"
    by (simp add: usizes_def ex_zr ex_a_def ex_b_def ex_c_def)
  have i: "(2::int) = (case Some ex_saved of None \<Rightarrow> 0 | Some c \<Rightarrow> EntryIndex c)"
    by (simp add: ex_saved_def)
  show ?thesis
    using iteration_order_and_baseline [OF ex_resumed_run i] s u
    by (simp add: ex_resumed_run ex_stop_run ex_zr)
qed

subsection \<open>Alignment of a resumed Source\<close>

text \<open>
  C3. Alignment correctness. The body of the loop takes up a file entry \<open>e\<close> of a
  resumable member whose Source resumes at offset \<open>p\<close>, strictly before the entry's
  recorded write offset \<open>w\<close> (which the stream reaches, and an \<^verbatim>\<open>int64\<close> holds).
  When the sink hands out the writer, what the body does is: it discards exactly
  \<open>w - p\<close> bytes from the Source, it gets the writer, and then come only the events
  of the copy, whose writes all go to the entry, the first at offset \<open>w\<close> and each
  where the one before ended. The bytes written are the stream's from offset \<open>w\<close> on,
  all of them when the copy ends with no error and no stop. No write is below \<open>w\<close>.
\<close>

theorem alignment_discards_then_appends:
  assumes "Entry (cp st) = Some e" "Kind e = EntryKindFile"
    "Method zf = Store \<or> Method zf = Deflate" "\<not> offset_err zf"
    "source_Resume zf (SourceCheckpoint (cp st)) = Some p"
    "p < WriteOffset e" "WriteOffset e \<le> int (length (payload zf))" "WriteOffset e < 2 ^ 63"
    "\<not> fails snk OpGetWriter (CanonicalPath e)" "\<not> stopError st"
    "do_entry snk tot i zf sch st = (err, sch', st')"
  shows "\<exists>evs bs. trace st' =
             trace st @ Discard (CanonicalPath e) (WriteOffset e - p) # GetWriter e # evs \<and>
           list_all copy_event evs \<and>
           appends (CanonicalPath e) (WriteOffset e) evs = Some bs \<and>
           stream_at zf (nat (WriteOffset e)) bs \<and>
           (err = None \<and> \<not> stopError st' \<longrightarrow> bs = drop (nat (WriteOffset e)) (payload zf))"
proof -
  define st1 where "st1 = st\<lparr>cp := (cp st)\<lparr>EntryIndex := i\<rparr>\<rparr>"
  have 1: "Entry (cp st1) = Some e" "\<not> stopError st1" "trace st1 = trace st"
    "source_Resume zf (SourceCheckpoint (cp st1)) = Some p"
    using assms(1,5,10) by (simp_all add: st1_def)
  obtain e3 sch3 st3 where r: "resumable_copy snk zf tot sch st1 = (e3, sch3, st3)"
    by (cases "resumable_copy snk zf tot sch st1")
  have res: "trace st' = trace st3" "stopError st' = stopError st3" "err = e3"
    using assms(11) r do_entry_resumable [OF assms(1,2,3), of snk tot i sch]
    by (auto simp: st1_def split: option.splits)
  have p: "0 \<le> p" using source_Resume_range [OF assms(5)] by simp
  have d: "sub64 (WriteOffset e) p = WriteOffset e - p"
    unfolding sub64_def using p assms(6,8) by (intro wrap64_id) simp_all
  have al: "align zf p st1 = Some (nat (WriteOffset e),
              emit (Discard (CanonicalPath e) (WriteOffset e - p)) st1)"
    using 1(1) assms(6,7) p d
    by (simp add: align_def Let_def cur_entry_def DiscardByRead_def nat_add_distrib [symmetric] nat_le_iff)
  from resumable_copy_aligned [OF 1(1,2) assms(4) 1(4) al _ assms(9) r,
      of "[Discard (CanonicalPath e) (WriteOffset e - p)]"]
  show ?thesis using res 1(3) by (auto simp: emit_def)
qed

lemma ex_st_simps: "trace (ex_st c) = []" "cp (ex_st c) = c" "\<not> stopError (ex_st c)"
  by (simp_all add: ex_st_def)

lemma ex_payloads: "payload ex_c = [4, 5, 6, 7]" "payload ex_l = [8, 9, 10]"
  by (simp_all add: ex_c_def ex_l_def)

lemma ex_aligned_entry:
  "do_entry ok_sink 7 2 ex_c [] (ex_st ex_saved) =
     (None, [],
      \<lparr> cp = \<lparr> EntryIndex = 2, Progress = Ratio 6 7,
                Entry = Some ((zipFileEntry ex_c)\<lparr>WriteOffset := 4\<rparr>),
                SourceCheckpoint = Some \<lparr>Offset = 2\<rparr> \<rparr>,
        doneBytes = 7, stopError = False,
        trace = [Discard ''c.bin'' 1, GetWriter ((zipFileEntry ex_c)\<lparr>WriteOffset := 3\<rparr>),
                 Write ''c.bin'' 3 [7], ProgressEv (Ratio 7 7)] \<rparr>)"
  by code_simp

theorem alignment_discards_then_appends_witness:
  "\<exists>evs bs. trace (snd (snd (do_entry ok_sink 7 2 ex_c [] (ex_st ex_saved)))) =
       [] @ Discard ''c.bin'' (3 - 2) # GetWriter ((zipFileEntry ex_c)\<lparr>WriteOffset := 3\<rparr>) # evs \<and>
     list_all copy_event evs \<and> appends ''c.bin'' 3 evs = Some bs \<and> stream_at ex_c (nat 3) bs \<and>
     bs = drop (nat 3) (payload ex_c)"
proof -
  let ?e = "(zipFileEntry ex_c)\<lparr>WriteOffset := 3\<rparr>"
  have 1: "Entry (cp (ex_st ex_saved)) = Some ?e" by (simp add: ex_st_def ex_saved_def)
  have 2: "Kind ?e = EntryKindFile" by code_simp
  have 3: "Method ex_c = Store \<or> Method ex_c = Deflate" by code_simp
  have 4: "\<not> offset_err ex_c" by (simp add: ex_c_def)
  have 5: "source_Resume ex_c (SourceCheckpoint (cp (ex_st ex_saved))) = Some 2" by code_simp
  have 6: "2 < WriteOffset ?e" by simp
  have 7: "WriteOffset ?e \<le> int (length (payload ex_c))" by (simp add: ex_c_def)
  have 8: "WriteOffset ?e < 2 ^ 63" by simp
  have 9: "\<not> fails ok_sink OpGetWriter (CanonicalPath ?e)" by (simp add: ok_sink_def)
  have 10: "\<not> stopError (ex_st ex_saved)" by (simp add: ex_st_def)
  have p: "CanonicalPath ?e = ''c.bin''" by code_simp
  show ?thesis
    using alignment_discards_then_appends [OF 1 2 3 4 5 6 7 8 9 10 ex_aligned_entry]
    by (simp add: ex_aligned_entry p ex_st_simps ex_payloads stream_at_def)
qed

subsection \<open>A Source ahead of the writer\<close>

text \<open>
  C2, as amended. When the Source of a resumable file entry resumes at an offset \<open>p\<close>
  strictly after the entry's recorded write offset \<open>w\<close>, the body of the loop neither
  discards nor rejects: it gets the writer and the Copier appends, from offset \<open>w\<close>
  on, the bytes of the stream from offset \<open>p\<close> on. When nothing else fails (the sink,
  the stream, the save consumer) there is no error at all.
\<close>

theorem ahead_checkpoint_is_copied_from:
  assumes "Entry (cp st) = Some e" "Kind e = EntryKindFile"
    "Method zf = Store \<or> Method zf = Deflate" "\<not> offset_err zf"
    "source_Resume zf (SourceCheckpoint (cp st)) = Some p"
    "WriteOffset e < p"
    "\<not> fails snk OpGetWriter (CanonicalPath e)" "\<not> stopError st"
    "do_entry snk tot i zf sch st = (err, sch', st')"
  shows "\<exists>evs bs. trace st' = trace st @ GetWriter e # evs \<and>
           list_all copy_event evs \<and>
           appends (CanonicalPath e) (WriteOffset e) evs = Some bs \<and>
           stream_at zf (nat p) bs \<and>
           (err = None \<and> \<not> stopError st' \<longrightarrow> bs = drop (nat p) (payload zf)) \<and>
           (sink_ok snk \<and> \<not> corrupt zf \<and> sched_ok sch \<longrightarrow> err = None)"
proof -
  define st1 where "st1 = st\<lparr>cp := (cp st)\<lparr>EntryIndex := i\<rparr>\<rparr>"
  have 1: "Entry (cp st1) = Some e" "\<not> stopError st1" "trace st1 = trace st"
    "source_Resume zf (SourceCheckpoint (cp st1)) = Some p"
    using assms(1,5,8) by (simp_all add: st1_def)
  obtain e3 sch3 st3 where r: "resumable_copy snk zf tot sch st1 = (e3, sch3, st3)"
    by (cases "resumable_copy snk zf tot sch st1")
  have res: "trace st' = trace st3" "stopError st' = stopError st3" "err = e3"
    using assms(9) r do_entry_resumable [OF assms(1,2,3), of snk tot i sch]
    by (auto simp: st1_def split: option.splits)
  have al: "align zf p st1 = Some (nat p, st1)"
    using 1(1) assms(6) by (simp add: align_def Let_def cur_entry_def)
  from resumable_copy_aligned [OF 1(1,2) assms(4) 1(4) al _ assms(7) r, of "[]"]
  show ?thesis using res 1(3) by auto
qed

lemma ex_ahead_entry:
  "do_entry ok_sink 7 2 ex_c [] (ex_st ex_ahead) =
     (None, [],
      \<lparr> cp = \<lparr> EntryIndex = 2, Progress = Ratio 3 7,
                Entry = Some ((zipFileEntry ex_c)\<lparr>WriteOffset := 2\<rparr>),
                SourceCheckpoint = Some \<lparr>Offset = 2\<rparr> \<rparr>,
        doneBytes = 7, stopError = False,
        trace = [GetWriter (zipFileEntry ex_c), Write ''c.bin'' 0 [6, 7], ProgressEv (Ratio 5 7)] \<rparr>)"
  by code_simp

theorem ahead_checkpoint_is_copied_from_witness:
  "\<exists>evs bs. trace (snd (snd (do_entry ok_sink 7 2 ex_c [] (ex_st ex_ahead)))) =
       [] @ GetWriter (zipFileEntry ex_c) # evs \<and>
     list_all copy_event evs \<and> appends ''c.bin'' 0 evs = Some bs \<and> stream_at ex_c (nat 2) bs \<and>
     bs = drop (nat 2) (payload ex_c) \<and>
     fst (do_entry ok_sink 7 2 ex_c [] (ex_st ex_ahead)) = None"
proof -
  let ?e = "zipFileEntry ex_c"
  have 1: "Entry (cp (ex_st ex_ahead)) = Some ?e" by (simp add: ex_st_def ex_ahead_def)
  have 2: "Kind ?e = EntryKindFile" by code_simp
  have 3: "Method ex_c = Store \<or> Method ex_c = Deflate" by code_simp
  have 4: "\<not> offset_err ex_c" by (simp add: ex_c_def)
  have 5: "source_Resume ex_c (SourceCheckpoint (cp (ex_st ex_ahead))) = Some 2" by code_simp
  have 6: "WriteOffset ?e < 2" by (simp add: zipFileEntry_def)
  have 7: "\<not> fails ok_sink OpGetWriter (CanonicalPath ?e)" by (simp add: ok_sink_def)
  have 8: "\<not> stopError (ex_st ex_ahead)" by (simp add: ex_st_def)
  have p: "CanonicalPath ?e = ''c.bin''" "WriteOffset ?e = 0" by code_simp+
  have ok: "sink_ok ok_sink" "\<not> corrupt ex_c" "sched_ok []"
    by (simp_all add: sink_ok_def ok_sink_def ex_c_def sched_ok_def)
  show ?thesis
    using ahead_checkpoint_is_copied_from [OF 1 2 3 4 5 6 7 8 ex_ahead_entry] ok
    by (simp add: ex_ahead_entry p ex_st_simps ex_payloads stream_at_def)
qed

text \<open>
  C2 as stated fails. The checkpoint of the example says that the Source is at offset 2
  and the writer at offset 0 of the last member. \<^verbatim>\<open>Resume\<close> returns a result, not an
  error, and has written the stream's last two bytes at offset 0.
\<close>

lemma ex_ahead_run:
  "Resume (ex_ze []) (Some ex_ahead) ok_sink =
  (Inr (map zipFileEntry [ex_a, ex_b, ex_c]),
   \<lparr>EntryIndex = 2, Progress = Ratio 3 7, Entry = None, SourceCheckpoint = None\<rparr>,
   [Doing 2, GetWriter (zipFileEntry ex_c), Write ''c.bin'' 0 [6, 7], ProgressEv (Ratio 5 7)])"
  by code_simp

theorem ahead_checkpoint_counterexample:
  "source_Resume ex_c (SourceCheckpoint ex_ahead) = Some 2 \<and>
   Entry ex_ahead = Some (zipFileEntry ex_c) \<and> WriteOffset (zipFileEntry ex_c) = 0 \<and>
   Resume (ex_ze []) (Some ex_ahead) ok_sink =
     (Inr (map zipFileEntry [ex_a, ex_b, ex_c]),
      \<lparr>EntryIndex = 2, Progress = Ratio 3 7, Entry = None, SourceCheckpoint = None\<rparr>,
      [Doing 2, GetWriter (zipFileEntry ex_c), Write ''c.bin'' 0 [6, 7], ProgressEv (Ratio 5 7)])"
proof -
  have "source_Resume ex_c (SourceCheckpoint ex_ahead) = Some 2" by code_simp
  moreover have "WriteOffset (zipFileEntry ex_c) = 0" by (simp add: zipFileEntry_def)
  ultimately show ?thesis by (simp add: ex_ahead_run) (simp add: ex_ahead_def)
qed

subsection \<open>Members without a Source\<close>

text \<open>
  C7. Fallback entries restart wholly. For a file entry of a member stored with a method
  other than Store and Deflate, whatever write offset the checkpoint recorded for it,
  the body of the loop sets the write offset to 0, gets the writer and writes the whole
  stream at offset 0. No save is offered: there is no other event, and the save
  consumer's schedule is left as it was. When opening, getting the writer, writing and
  the stream do not fail, there is no error.
\<close>

theorem fallback_restarts_wholly:
  assumes "e = (case Entry (cp st) of None \<Rightarrow> zipFileEntry zf | Some e' \<Rightarrow> e')"
    "Kind e = EntryKindFile" "Method zf \<noteq> Store" "Method zf \<noteq> Deflate"
    "\<not> open_err zf" "\<not> corrupt zf"
    "\<not> fails snk OpGetWriter (CanonicalPath e)" "\<not> fails snk OpWrite (CanonicalPath e)"
  shows "\<exists>st'. do_entry snk tot i zf sch st = (None, sch, st') \<and>
           trace st' = trace st @
             [GetWriter (e\<lparr>WriteOffset := 0\<rparr>), Write (CanonicalPath e) 0 (payload zf)] \<and>
           Entry (cp st') = Some (e\<lparr>WriteOffset := 0\<rparr>) \<and>
           stopError st' = stopError st"
  using assms
  by (cases "Entry (cp st)")
     (auto simp: do_entry_def Let_def full_copy_def cur_entry_def set_entry_def emit_def
        stream_end_def)

lemma ex_fallback_entry:
  "do_entry ok_sink 3 0 ex_l [(1, SavePoint (Some AfterSaveStop))] (ex_st ex_partial) =
     (None, [(1, SavePoint (Some AfterSaveStop))],
      \<lparr> cp = \<lparr> EntryIndex = 0, Progress = Ratio 2 3,
                Entry = Some (zipFileEntry ex_l), SourceCheckpoint = None \<rparr>,
        doneBytes = 6, stopError = False,
        trace = [GetWriter (zipFileEntry ex_l), Write ''l.xz'' 0 [8, 9, 10]] \<rparr>)"
  by code_simp

theorem fallback_restarts_wholly_witness:
  "fst (do_entry ok_sink 3 0 ex_l [(1, SavePoint (Some AfterSaveStop))] (ex_st ex_partial)) = None \<and>
   trace (snd (snd (do_entry ok_sink 3 0 ex_l [(1, SavePoint (Some AfterSaveStop))] (ex_st ex_partial)))) =
     [GetWriter (zipFileEntry ex_l), Write ''l.xz'' 0 (payload ex_l)]"
proof -
  let ?e = "(zipFileEntry ex_l)\<lparr>WriteOffset := 2\<rparr>"
  have 1: "?e = (case Entry (cp (ex_st ex_partial)) of None \<Rightarrow> zipFileEntry ex_l | Some e' \<Rightarrow> e')"
    by (simp add: ex_st_def ex_partial_def)
  have 2: "Kind ?e = EntryKindFile" by code_simp
  have 3: "Method ex_l \<noteq> Store" "Method ex_l \<noteq> Deflate" by code_simp+
  have 4: "\<not> open_err ex_l" "\<not> corrupt ex_l" by (simp_all add: ex_l_def)
  have 5: "\<not> fails ok_sink OpGetWriter (CanonicalPath ?e)" "\<not> fails ok_sink OpWrite (CanonicalPath ?e)"
    by (simp_all add: ok_sink_def)
  have p: "CanonicalPath ?e = ''l.xz''" "?e\<lparr>WriteOffset := 0\<rparr> = zipFileEntry ex_l" by code_simp+
  show ?thesis
    using fallback_restarts_wholly [OF 1 2 3 4 5, of 3 0 "[(1, SavePoint (Some AfterSaveStop))]"]
    by (auto simp: p ex_st_simps ex_payloads)
qed

subsection \<open>Round trip\<close>

text \<open>
  C1. Round-trip integrity. Take any archive whose members can be read, a sink that does
  not fail and save consumers whose \<^verbatim>\<open>Save\<close> does not fail. Extract with
  interruptions: one call of \<^verbatim>\<open>Resume\<close> per save consumer of the list \<open>ss\<close>, the
  first with no checkpoint, each call that is stopped at a save point followed by a call
  with the last checkpoint offered, and a last call whose save consumer never stops. And
  extract with one call of \<^verbatim>\<open>Resume\<close> with no checkpoint, whose save consumer never
  stops. Both return the result that lists the archive's entries, and the data written
  to the sink is the same, file by file and byte by byte.
\<close>

theorem round_trip_integrity:
  assumes "sink_ok snk" "archive_ok (zr ze)"
    "list_all sched_ok ss" "sched_ok fin" "never_stops fin" "sched_ok base" "never_stops base"
  shows "fst (interrupted ze snk ss fin None) = Inr (map zipFileEntry (zr ze)) \<and>
         fst (Resume (SetSaveConsumer ze base) None snk) = Inr (map zipFileEntry (zr ze)) \<and>
         written (snd (interrupted ze snk ss fin None)) =
         written (snd (snd (Resume (SetSaveConsumer ze base) None snk)))"
proof -
  obtain r lg where i: "interrupted ze snk ss fin None = (r, lg)"
    by (cases "interrupted ze snk ss fin None")
  obtain r1 c1 lg1 where b: "interrupted ze snk [] base None = (r1, lg1)"
    "Resume (SetSaveConsumer ze base) None snk = (r1, c1, lg1)"
    by (cases "Resume (SetSaveConsumer ze base) None snk") simp
  from interrupted_store [OF assms(1,2,4,5) assms(3) _ i, of "\<lambda>path. []"]
    interrupted_store [OF assms(1,2,6,7) _ _ b(1), of "\<lambda>path. []"]
  show ?thesis using i b by (simp add: written_def)
qed

lemma ex_interrupted_run:
  "interrupted (ex_ze []) ok_sink [ex_stop] [] None =
   (Inr (map zipFileEntry [ex_a, ex_b, ex_c]),
    [Preallocate (zipFileEntry ex_a), Preallocate (zipFileEntry ex_c), Doing 0,
     GetWriter (zipFileEntry ex_a), Write ''a.txt'' 0 [1, 2, 3], ProgressEv (Ratio 3 7),
     Doing 1, Mkdir (zipFileEntry ex_b), Doing 2, GetWriter (zipFileEntry ex_c),
     Write ''c.bin'' 0 [4, 5, 6], ProgressEv (Ratio 6 7), Sync ''c.bin'',
     Save ex_saved AfterSaveStop,
     Doing 2, Discard ''c.bin'' 1, GetWriter ((zipFileEntry ex_c)\<lparr>WriteOffset := 3\<rparr>),
     Write ''c.bin'' 3 [7], ProgressEv (Ratio 7 7)])"
  by code_simp

lemma ex_written: "written (snd (interrupted (ex_ze []) ok_sink [ex_stop] [] None)) ''c.bin'' = [4, 5, 6, 7]"
  unfolding ex_interrupted_run by code_simp

theorem round_trip_integrity_witness:
  "fst (interrupted (ex_ze []) ok_sink [ex_stop] [] None) = Inr (map zipFileEntry (zr (ex_ze []))) \<and>
   fst (Resume (SetSaveConsumer (ex_ze []) []) None ok_sink) = Inr (map zipFileEntry (zr (ex_ze []))) \<and>
   written (snd (interrupted (ex_ze []) ok_sink [ex_stop] [] None)) =
   written (snd (snd (Resume (SetSaveConsumer (ex_ze []) []) None ok_sink))) \<and>
   written (snd (interrupted (ex_ze []) ok_sink [ex_stop] [] None)) ''c.bin'' = [4, 5, 6, 7]"
proof -
  have 1: "sink_ok ok_sink" by (simp add: sink_ok_def ok_sink_def)
  have 2: "archive_ok (zr (ex_ze []))"
    by (simp add: archive_ok_def member_ok_def ex_zr ex_a_def ex_b_def ex_c_def)
  have 3: "list_all sched_ok [ex_stop]" by (simp add: sched_ok_def ex_stop_def)
  have 4: "sched_ok []" "never_stops []" by (simp_all add: sched_ok_def never_stops_def)
  show ?thesis
    using round_trip_integrity [OF 1 2 3 4 4] ex_written by simp
qed

subsection \<open>Progress\<close>













subsection \<open>The flate threshold\<close>

text \<open>
  C10. The flate threshold does not interfere: \<^verbatim>\<open>FlateThreshold\<close> returns the configured
  value when it is positive and 1 MiB otherwise, and for every extractor, checkpoint and
  sink the result of \<^verbatim>\<open>Resume\<close>, the checkpoint it leaves and the log of all it does
  are the same whatever two values were configured with \<^verbatim>\<open>SetFlateThreshold\<close>.
\<close>

theorem flate_threshold_noninterference:
  "Resume (SetFlateThreshold ze a) checkpoint snk = Resume (SetFlateThreshold ze b) checkpoint snk
   \<and> FlateThreshold (SetFlateThreshold ze a) = (if 0 < a then a else 1048576)"
  by (simp add: Resume_def SetFlateThreshold_def FlateThreshold_def defaultFlateThreshold_def
      cong del: option.case_cong_weak prod.case_cong_weak if_weak_cong)

end
